theory Spec2Isabelle
  imports Main "HOL-Library.Word" "HOL-Library.AList"
begin

unbundle bit_operations_syntax

section \<open>Data model\<close>

text \<open>
  The card's data are lists of Python integers in the range 0..255, as the smart card
  library returns them; a byte is an 8-bit word here. Lengths are Python integers
  (unbounded), hence natural numbers.
\<close>

type_synonym byte = "8 word"

text \<open>The exceptions the program can raise in the code that is modelled.\<close>

datatype error = StopIteration | KeyError | ValueError | TypeError | IndexError | AttributeError

text \<open>
  A decoded element is the Python list \<open>[tag, length, value]\<close>, where \<open>value\<close> is either a
  list of integers (the raw bytes of a primitive tag) or a list of such elements (the
  content of a constructed tag). Python keeps both kinds of value as plain lists, so an
  empty value is the same object \<open>[]\<close> in both cases: \<open>Bytes []\<close> and \<open>Tlvs []\<close> stand for
  one Python value, and every function below that inspects a value does it through
  \<open>is_nested_tlv\<close>, which (as in the source) cannot tell them apart.
\<close>

datatype pyvalue = Bytes (the_bytes: "byte list") | Tlvs (the_tlvs: "(byte \<times> nat \<times> pyvalue) list")

type_synonym tlv = "byte \<times> nat \<times> pyvalue"

subsection \<open>Tags found on VDV-KA chip cards (class Tag)\<close>

definition BERECHTIGUNG :: byte where "BERECHTIGUNG = 0xE8"
definition BERECHTIGUNG_SEPARATE_DATEN :: byte where "BERECHTIGUNG_SEPARATE_DATEN = 0xEA"
definition BERECHTIGUNG_PRODUKTSPEZIFISCH :: byte where "BERECHTIGUNG_PRODUKTSPEZIFISCH = 0x85"
definition SCHLUESSELREGISTER_SEPARATE_DATEN :: byte where "SCHLUESSELREGISTER_SEPARATE_DATEN = 0xED"

section \<open>The BER-TLV parser (class BerTlv)\<close>

text \<open>
  \<open>next(idata)\<close> on the iterator over the remaining bytes: the next byte and the advanced
  iterator, or \<open>None\<close> when the iterator raises StopIteration.
\<close>

fun next_byte :: "byte list \<Rightarrow> (byte \<times> byte list) option" where
  "next_byte [] = None"
| "next_byte (b # bs) = Some (b, bs)"

text \<open>
  The long form of the length, \<open>for k in range(n): length = (length<<8) | next(idata)\<close>.
\<close>

fun read_long_length :: "nat \<Rightarrow> nat \<Rightarrow> byte list \<Rightarrow> (nat \<times> byte list) option" where
  "read_long_length 0 len idata = Some (len, idata)"
| "read_long_length (Suc n) len idata =
     (case next_byte idata of
        None \<Rightarrow> None
      | Some (b, idata') \<Rightarrow> read_long_length n (push_bit 8 len OR unat b) idata')"

text \<open>
  \<open>k\<close> successive \<open>next(idata)\<close> calls, as in the comprehension
  \<open>[next(idata) for k in range(length)]\<close> that reads the value: the bytes read and the
  advanced iterator, or \<open>None\<close> when one of the calls raises StopIteration.
\<close>

fun next_n :: "nat \<Rightarrow> byte list \<Rightarrow> (byte list \<times> byte list) option" where
  "next_n 0 idata = Some ([], idata)"
| "next_n (Suc k) idata =
     (case next_byte idata of
        None \<Rightarrow> None
      | Some (b, idata') \<Rightarrow>
          (case next_n k idata' of
             None \<Rightarrow> None
           | Some (v, idata'') \<Rightarrow> Some (b # v, idata'')))"

text \<open>
  One pass through the body of the \<open>while True\<close> loop of \<open>_parse_internal\<close> up to the
  classification: tag, length (short or long form) and value are read from the iterator.
  \<open>None\<close> is a StopIteration raised by one of the \<open>next\<close> calls.
\<close>

definition read_tlv :: "byte list \<Rightarrow> ((byte \<times> nat \<times> byte list) \<times> byte list) option" where
  "read_tlv idata =
     (case next_byte idata of
        None \<Rightarrow> None
      | Some (tag, idata1) \<Rightarrow>
          (case next_byte idata1 of
             None \<Rightarrow> None
           | Some (len0, idata2) \<Rightarrow>
               (case (if len0 AND 0x80 \<noteq> 0
                      then read_long_length (unat (len0 AND 0x7f)) 0 idata2
                      else Some (unat len0, idata2)) of
                  None \<Rightarrow> None
                | Some (len, idata3) \<Rightarrow>
                    (case next_n len idata3 of
                       None \<Rightarrow> None
                     | Some (v, idata4) \<Rightarrow> Some ((tag, len, v), idata4)))))"

lemma read_long_length_size:
  "read_long_length n len idata = Some (l, rest) \<Longrightarrow> length rest \<le> length idata"
proof (induction n arbitrary: len idata)
  case 0
  then show ?case by simp
next
  case (Suc n)
  then show ?case by (cases idata) fastforce+
qed

lemma next_n_size:
  "next_n k idata = Some (v, rest) \<Longrightarrow> length idata = length v + length rest \<and> length v = k"
proof (induction k arbitrary: idata v)
  case 0
  then show ?case by simp
next
  case (Suc k)
  then show ?case by (cases idata) (auto split: option.splits)
qed

lemma read_tlv_size:
  assumes "read_tlv idata = Some ((tag, len, v), rest)"
  shows "length v + length rest + 2 \<le> length idata" and "length v = len"
proof -
  from assms obtain len0 idata2 idata3 where
    i: "idata = tag # len0 # idata2" and
    l: "(if len0 AND 0x80 \<noteq> 0 then read_long_length (unat (len0 AND 0x7f)) 0 idata2
         else Some (unat len0, idata2)) = Some (len, idata3)" and
    v: "next_n len idata3 = Some (v, rest)"
    unfolding read_tlv_def
    by (cases idata; cases "tl idata") (auto split: option.splits)
  from l have "length idata3 \<le> length idata2"
    by (auto split: if_splits dest: read_long_length_size)
  with next_n_size [OF v] i
  show "length v + length rest + 2 \<le> length idata" and "length v = len"
    by simp_all
qed

text \<open>
  \<open>_parse_internal\<close>. The loop appends each completed element to \<open>decoded\<close> and the
  \<open>except StopIteration\<close> clause around the whole loop returns \<open>decoded\<close>: the elements
  completed before the iterator ran out, in order. The only operation of the body that
  can raise is \<open>next\<close>, so the function itself never raises.
\<close>

function parse_internal :: "bool \<Rightarrow> byte list \<Rightarrow> tlv list" where
  "parse_internal tlvefs_hack data =
     (case read_tlv data of
        None \<Rightarrow> []
      | Some ((tag, len, v), rest) \<Rightarrow>
          (if (tag AND 0x20 \<noteq> 0 \<and> tag \<noteq> SCHLUESSELREGISTER_SEPARATE_DATEN)
              \<or> (tlvefs_hack \<and> tag = BERECHTIGUNG_PRODUKTSPEZIFISCH)
           then (tag, len, Tlvs (parse_internal tlvefs_hack v))
           else (tag, len, Bytes v))
          # parse_internal tlvefs_hack rest)"
  by pat_completeness auto
termination
proof (relation "measure (\<lambda>(h, d). length d)")
  show "wf (measure (\<lambda>(h, d). length d))" by simp
next
  fix tlvefs_hack :: bool and data x2 x y rest tag ya len v
  assume "read_tlv data = Some x2" "(x, rest) = x2" "(tag, ya) = x" "(len, v) = ya"
  then have "read_tlv data = Some ((tag, len, v), rest)" by simp
  from read_tlv_size(1) [OF this]
  show "((tlvefs_hack, rest), (tlvefs_hack, data)) \<in> measure (\<lambda>(h, d). length d)" by simp
next
  fix tlvefs_hack :: bool and data x2 x y rest tag ya len v
  assume "read_tlv data = Some x2" "(x, rest) = x2" "(tag, ya) = x" "(len, v) = ya"
  then have "read_tlv data = Some ((tag, len, v), rest)" by simp
  from read_tlv_size(1) [OF this]
  show "((tlvefs_hack, v), (tlvefs_hack, data)) \<in> measure (\<lambda>(h, d). length d)" by simp
qed

declare parse_internal.simps [simp del]

text \<open>\<open>parse\<close> stores the result of \<open>_parse_internal\<close> in the object.\<close>

definition parse :: "byte list \<Rightarrow> bool \<Rightarrow> tlv list" where
  "parse data tlvefs_hack = parse_internal tlvefs_hack data"

text \<open>\<open>_is_nested_tlv\<close>: \<open>len(value)>0 and isinstance(value[0], list)\<close>.\<close>

definition is_nested_tlv :: "pyvalue \<Rightarrow> bool" where
  "is_nested_tlv v = (case v of Tlvs (x # xs) \<Rightarrow> True | _ \<Rightarrow> False)"

text \<open>
  The constructor \<open>BerTlv(data)\<close>: an empty list or a list of elements is taken as it
  is, a list of bytes is parsed in the default mode. The result is the object's
  \<open>_bertlv\<close>.
\<close>

definition BerTlv :: "pyvalue \<Rightarrow> tlv list" where
  "BerTlv data =
     (case data of
        Tlvs ts \<Rightarrow> ts
      | Bytes bs \<Rightarrow> (if bs = [] then [] else parse bs False))"

text \<open>
  \<open>get_nth_child\<close>: the loop over \<open>self._bertlv\<close> with its counter \<open>count\<close>;
  \<open>None\<close> is Python's \<open>None\<close>.
\<close>

fun get_nth_child_loop :: "tlv list \<Rightarrow> byte \<Rightarrow> nat \<Rightarrow> nat \<Rightarrow> tlv list option" where
  "get_nth_child_loop [] tag no count = None"
| "get_nth_child_loop ((temp, len, v) # rest) tag no count =
     (if temp = tag
      then (if count = no \<and> is_nested_tlv v then Some (BerTlv v)
            else get_nth_child_loop rest tag no (count + 1))
      else get_nth_child_loop rest tag no count)"

definition get_nth_child :: "tlv list \<Rightarrow> byte \<Rightarrow> nat \<Rightarrow> tlv list option" where
  "get_nth_child bertlv tag no = get_nth_child_loop bertlv tag no 0"

definition get_child :: "tlv list \<Rightarrow> byte \<Rightarrow> tlv list option" where
  "get_child bertlv tag = get_nth_child bertlv tag 0"

text \<open>
  \<open>get_value\<close>: \<open>bytes(value)\<close> of the first element with the tag whose value is not
  nested. A value that is not nested is a list of bytes or the empty list.
\<close>

fun get_value :: "tlv list \<Rightarrow> byte \<Rightarrow> byte list option" where
  "get_value [] tag = None"
| "get_value ((temp, len, v) # rest) tag =
     (if temp = tag \<and> \<not> is_nested_tlv v
      then Some (case v of Bytes bs \<Rightarrow> bs | Tlvs ts \<Rightarrow> [])
      else get_value rest tag)"

section \<open>The decoder for values stored in VDV-KA tags (class VdvKaDecoder)\<close>

text \<open>
  \<open>_fields\<close>: tags and field definitions; fields are separated by \<open>|\<close> and consist of a
  data type and a name. The keys are the members of \<open>Tag\<close>, given here by their codes.
\<close>

definition fields_table :: "(byte \<times> string) list" where
  "fields_table =
     [(0x80, ''1:appStatus|1:appSynchronNummer''),
      (0x81, ''4:NmAppInstanznummer|2:app.organisationsNummer|1:appVersion|D:appGueltigkeitsbeginn|D:appGueltigkeitsende''),
      (0x82, ''2:logApplikationSeqNummer''),
      (0xC7, ''S:Infotext''),
      (0x91, ''1:Version KPV|1:Version KKVP|1:Version KAUTH''),
      (0x99, ''4:samSequenznummer|3:samNummer''),
      (0x89, ''2:logApplikationSeqNummer|4:samSequenznummer|3:samNummer|2:logTransaktionsOperator_ID|1:terminalTyp|2:terminalNummer|2:transkation.organisationsNummer|D:logTransaktionsZeitpunkt|1:ortTyp|3:ortNummer|2:ort.organisationsNummer|1:logTransaktionsTyp''),
      (0x9B, ''4:appProdLogSAMSeqNummer''),
      (0x8E, ''2:appLogSeqNummer|4:NmAppInstanznummer|2:app.organisationsNummer|1:alterStatus|1:neuerStatus|1:appSynchronNummer|8:MACKONTROLLE|1:Version KKONTROLLE''),
      (0x9A, ''4:berProdLogSAMSeqNummer''),
      (0x8D, ''2:berLogSeqNummer|4:berechtigungNummer|2:ber.organisationsNummer|2:produktNummer|2:produkt.organisationsNummer|1:alterStatus|1:neuerStatus|1:berSynchronNummer|8:MACKONTROLLE|1:Version KKONTROLLE''),
      (0x86, ''2:|2:hersteller.organisationsNummer|B:NM-Spezifikations-version|4:Herstellerspezifische Versionsnummer''),
      (0x83, ''4:berechtigungNummer|2:ber.organisationsNummer|2:produktNummer|2:produkt.organisationsNummer|2:prodKeyOrganisation_ID|D:berGueltigkeitsbeginn|D:berGueltigkeitsende''),
      (0x84, ''1:berStatus|1:berSynchronNummer''),
      (0xDB, ''1:efsFahrgastGeschlecht|H:efsFahrgastGeburtsdatum|S:efsFahrgastName''),
      (0xDC, ''1:Typ|2:pv.organisationsNummer''),
      (0xC3, ''1:LogTransaktionsTyp|1:Zeiger''),
      (0x8B, ''2:berLogSeqNummer|4:berechtigungNummer|2:ber.organisationsNummer|2:produktNummer|2:produkt.organisationsNummer|2:Linie_ID.linienNummer|1:VariantenNummer|3:fahrtNummer|2:Organisation_ID.organisationsNummer'')]"

definition fields_dict :: "byte \<Rightarrow> string option" where
  "fields_dict tag = map_of fields_table tag"

subsection \<open>String formatting\<close>

text \<open>\<open>"%02x" % b\<close> for a byte: two lowercase hexadecimal digits.\<close>

definition hex2 :: "byte \<Rightarrow> string" where
  "hex2 b = [''0123456789abcdef'' ! (unat b div 16), ''0123456789abcdef'' ! (unat b mod 16)]"

text \<open>
  \<open>str(n)\<close> for a Python integer: its decimal digits, after a minus sign when it is
  negative.
\<close>

function dec_digits :: "int \<Rightarrow> string" where
  "dec_digits n =
     (if n < 10 then [''0123456789'' ! nat n]
      else dec_digits (n div 10) @ [''0123456789'' ! nat (n mod 10)])"
  by pat_completeness auto
termination
  by (relation "measure nat") auto

declare dec_digits.simps [simp del]

definition str_int :: "int \<Rightarrow> string" where
  "str_int n = (if n < 0 then ''-'' @ dec_digits (- n) else dec_digits n)"

text \<open>
  \<open>"%0wd" % n\<close>: decimal, padded with zeros (after the sign) to the width \<open>w\<close>.
\<close>

definition fmt_d :: "nat \<Rightarrow> int \<Rightarrow> string" where
  "fmt_d w n =
     (if n < 0 then ''-'' @ replicate (w - 1 - length (dec_digits (- n))) CHR ''0'' @ dec_digits (- n)
      else replicate (w - length (dec_digits n)) CHR ''0'' @ dec_digits n)"

text \<open>
  \<open>s.split(sep)\<close> for a separator of one character: the pieces between the separators,
  at least one piece.
\<close>

fun split :: "char \<Rightarrow> string \<Rightarrow> string list" where
  "split sep [] = [[]]"
| "split sep (c # cs) =
     (if c = sep then [] # split sep cs
      else (case split sep cs of
              [] \<Rightarrow> [[c]]
            | w # ws \<Rightarrow> (c # w) # ws))"

subsection \<open>Field decoding\<close>

text \<open>DateTimeCompact is a four-byte encoding of date and time.\<close>

definition decode_datetimecompact :: "int \<Rightarrow> int \<times> int \<times> int \<times> int \<times> int \<times> int" where
  "decode_datetimecompact dt =
     (let year = drop_bit (16 + 9) dt + 1990;
          month = drop_bit (16 + 5) dt AND 0xF;
          day = drop_bit 16 dt AND 0x1F;
          hour = drop_bit 11 dt AND 0x1F;
          minute = drop_bit 5 dt AND 0x3F;
          sec = (dt AND 0x1F) * 2
      in (year, month, day, hour, minute, sec))"

text \<open>A decoded value is a Python integer or a Python string.\<close>

datatype field_value = IntVal int | StrVal string

text \<open>
  One field of \<open>_decode_internal\<close>: the chain of \<open>if type == ...\<close> that reads the value of
  the field from the iterator. The result is the value and the advanced iterator, or the
  exception raised (StopIteration by \<open>next\<close>, ValueError for an unknown type).
\<close>

definition decode_field :: "string \<Rightarrow> byte list \<Rightarrow> error + (field_value \<times> byte list)" where
  "decode_field type idata =
     (if type = ''1'' then
        (case next_byte idata of
           Some (b, r) \<Rightarrow> Inr (IntVal (uint b), r)
         | None \<Rightarrow> Inl StopIteration)
      else if type = ''2'' then
        (case next_n 2 idata of
           Some ([b0, b1], r) \<Rightarrow> Inr (IntVal (push_bit 8 (uint b0) + uint b1), r)
         | _ \<Rightarrow> Inl StopIteration)
      else if type = ''3'' then
        (case next_n 3 idata of
           Some ([b0, b1, b2], r) \<Rightarrow>
             Inr (IntVal (push_bit 16 (uint b0) + push_bit 8 (uint b1) + uint b2), r)
         | _ \<Rightarrow> Inl StopIteration)
      else if type = ''4'' then
        (case next_n 4 idata of
           Some ([b0, b1, b2, b3], r) \<Rightarrow>
             Inr (IntVal (push_bit 24 (uint b0) + push_bit 16 (uint b1)
                          + push_bit 8 (uint b2) + uint b3), r)
         | _ \<Rightarrow> Inl StopIteration)
      else if type = ''8'' then
        (case next_n 8 idata of
           Some (bs, r) \<Rightarrow> Inr (StrVal (concat (map hex2 bs)), r)
         | None \<Rightarrow> Inl StopIteration)
      else if type = ''B'' then
        (case next_n 2 idata of
           Some (bs, r) \<Rightarrow> Inr (StrVal (concat (map hex2 bs)), r)
         | None \<Rightarrow> Inl StopIteration)
      else if type = ''D'' then
        (case next_n 4 idata of
           Some ([b0, b1, b2, b3], r) \<Rightarrow>
             (case decode_datetimecompact
                     (push_bit 24 (uint b0) + push_bit 16 (uint b1)
                      + push_bit 8 (uint b2) + uint b3) of
                (year, month, day, hour, minute, sec) \<Rightarrow>
                  Inr (StrVal (fmt_d 4 year @ ''-'' @ fmt_d 2 month @ ''-'' @ fmt_d 2 day @ '' ''
                               @ fmt_d 2 hour @ '':'' @ fmt_d 2 minute @ '':'' @ fmt_d 2 sec), r))
         | _ \<Rightarrow> Inl StopIteration)
      else if type = ''H'' then
        (case next_n 4 idata of
           Some ([b0, b1, b2, b3], r) \<Rightarrow>
             Inr (StrVal (hex2 b0 @ hex2 b1 @ ''-'' @ hex2 b2 @ ''-'' @ hex2 b3), r)
         | _ \<Rightarrow> Inl StopIteration)
      else if type = ''S'' then
        Inr (StrVal (map (\<lambda>x. char_of (uint x)) idata), [])
      else Inl ValueError)"

text \<open>
  The loop of \<open>_decode_internal\<close> over the fields of the definition. \<open>result\<close> is the
  ordered dictionary: a new name is appended, a name already there keeps its place and
  takes the new value. Unpacking \<open>type,name = field.split(":")\<close> raises ValueError unless
  there are exactly two pieces.
\<close>

fun decode_fields ::
  "string list \<Rightarrow> byte list \<Rightarrow> (string \<times> field_value) list \<Rightarrow> error + (string \<times> field_value) list"
where
  "decode_fields [] idata result = Inr result"
| "decode_fields (field # rest) idata result =
     (case split CHR '':'' field of
        [type, name] \<Rightarrow>
          (case decode_field type idata of
             Inl e \<Rightarrow> Inl e
           | Inr (val, idata') \<Rightarrow>
               decode_fields rest idata'
                 (if name \<noteq> [] then AList.update name val result else result))
      | _ \<Rightarrow> Inl ValueError)"

definition decode_internal :: "byte list \<Rightarrow> string \<Rightarrow> error + (string \<times> field_value) list" where
  "decode_internal idata fdef = decode_fields (split CHR ''|'' fdef) idata []"

text \<open>
  \<open>decode\<close>: a KeyError (the tag has no field definition) gives \<open>None\<close>; any other
  exception leaves the function.
\<close>

definition decode :: "byte \<Rightarrow> byte list \<Rightarrow> error + (string \<times> field_value) list option" where
  "decode tag data =
     (case fields_dict tag of
        None \<Rightarrow> Inr None
      | Some fdef \<Rightarrow>
          (case decode_internal data fdef of
             Inl e \<Rightarrow> (if e = KeyError then Inr None else Inl e)
           | Inr result \<Rightarrow> Inr (Some result)))"

section \<open>Pretty-printing\<close>

text \<open>The members of \<open>Tag\<close>: code and name.\<close>

definition Tag_members :: "(byte \<times> string) list" where
  "Tag_members =
     [(0xE0, ''APPLIKATIONSVERZEICHNIS''),
      (0xE1, ''APPLIKATIONSDATEN''),
      (0xE2, ''VERZ_APPLIKATIONSDATEN''),
      (0x80, ''APPLIKATIONSDATEN_DYNAMISCH''),
      (0x81, ''APPLIKATIONSDATEN_STATISCH''),
      (0xEE, ''APPLIKATIONSDATEN_SEPARATE_DATEN''),
      (0x91, ''SCHLUESSELVERSIONEN''),
      (0x99, ''AUSGABETRANSAKTIONSKENNUNG''),
      (0xE3, ''APPLIKATIONSLOGBUCH''),
      (0xE4, ''VERZ_APPLIKATIONSLOGBUCH''),
      (0x82, ''APPLIKATIONSLOGBUCH_STATISCH''),
      (0xE5, ''APPLIKATIONSLOGBUCH_SEPARATE_DATEN''),
      (0xE6, ''KUNDENDATEN''),
      (0xE7, ''VERZ_KUNDENDATEN''),
      (0xE8, ''BERECHTIGUNG''),
      (0xE9, ''VERZ_BERECHTIGUNG''),
      (0x83, ''BERECHTIGUNG_STATISCH''),
      (0x84, ''BERECHTIGUNG_DYNAMISCH''),
      (0xEA, ''BERECHTIGUNG_SEPARATE_DATEN''),
      (0x85, ''BERECHTIGUNG_PRODUKTSPEZIFISCH''),
      (0xEB, ''SCHLUESSELREGISTER''),
      (0xEC, ''VERZ_SCHLUESSELREGISTER''),
      (0x86, ''SCHLUESSELREGISTER_STATISCH''),
      (0x87, ''SCHLUESSELREGISTER_DYNAMISCH''),
      (0xED, ''SCHLUESSELREGISTER_SEPARATE_DATEN''),
      (0x89, ''ALLGEMEINE_TRANSAKTIONSDATEN''),
      (0xF7, ''AUSGABETRANSAKTION_APPLIKATION''),
      (0x8E, ''STATUSAENDERUNG_APPLIKATION''),
      (0x9B, ''AUSGABE_APPLIKATION_DATEN''),
      (0xF6, ''AUSGABETRANSAKTION_BERECHTIGUNG''),
      (0x8A, ''TRANSAKTION_PRODUKTSPEZIFISCHER_TEIL''),
      (0x8D, ''STATUSAENDERUNG_BERECHTIGUNG''),
      (0x9A, ''AUSGABE_BERECHTIGUNG_DATEN''),
      (0xF1, ''FAHRTTRANSAKTION''),
      (0x8B, ''ALLGEMEINE_FAHRTTRANSAKTIONSDATEN''),
      (0xDA, ''TLV_EFS_GRUNDLEGENDE_DATEN''),
      (0xDB, ''TLV_EFS_FAHRGAST''),
      (0xDC, ''TLV_EFS_LISTE_ORIG_GELTUNGSBEREICH''),
      (0xC0, ''ZEIGER''),
      (0xC3, ''LETZTE_TRANSAKTION''),
      (0xC7, ''INFOTEXT''),
      (0x90, ''PRIORITAETEN'')]"

text \<open>\<open>_get_tag_name\<close>: \<open>Tag(tag)\<close> raises ValueError for a code that is no member.\<close>

definition get_tag_name :: "byte \<Rightarrow> string" where
  "get_tag_name tag =
     (case map_of Tag_members tag of
        Some name \<Rightarrow> hex2 tag @ '' ('' @ name @ '')''
      | None \<Rightarrow> hex2 tag @ '' (???)'')"

text \<open>\<open>str(v)\<close> of a decoded value.\<close>

definition str_value :: "field_value \<Rightarrow> string" where
  "str_value v = (case v of IntVal n \<Rightarrow> str_int n | StrVal s \<Rightarrow> s)"

text \<open>\<open>"  "*indent\<close>.\<close>

definition indentation :: "nat \<Rightarrow> string" where
  "indentation indent = concat (replicate indent ''  '')"

text \<open>
  What is printed for an element that is not nested: the line with the bytes in
  hexadecimal, then (with details, when the tag has a field definition) one line for each
  decoded field. The result is the list of the lines printed and the exception that ended
  the printing, if any. The line with the bytes is printed before \<open>decode\<close> is called.
\<close>

definition print_leaf :: "byte \<Rightarrow> string \<Rightarrow> pyvalue \<Rightarrow> bool \<Rightarrow> nat \<Rightarrow> string list \<times> error option" where
  "print_leaf tag tag_name v with_details indent =
     (let bs = (case v of Bytes bs \<Rightarrow> bs | Tlvs ts \<Rightarrow> []);
          line = indentation indent @ tag_name @ '':'' @ concat (map (\<lambda>x. '' '' @ hex2 x) bs)
      in if with_details then
           (case decode tag bs of
              Inl e \<Rightarrow> ([line], Some e)
            | Inr None \<Rightarrow> ([line], None)
            | Inr (Some decoded) \<Rightarrow>
                (line # map (\<lambda>(n, v). indentation indent @ ''  '' @ n @ '': '' @ str_value v) decoded,
                 None))
         else ([line], None))"

lemma is_nested_tlv_size [termination_simp]:
  "is_nested_tlv v \<Longrightarrow> size_list (size_prod (\<lambda>x. 0) (size_prod (\<lambda>x. 0) size)) (the_tlvs v) < size v"
  by (cases v) (auto simp: is_nested_tlv_def split: list.splits)

text \<open>
  \<open>_pretty_print_internal\<close>: the loop over the elements of \<open>data\<close>. An exception raised at
  one element ends the loop: the lines printed until then stay printed, the elements after
  it are not visited.
\<close>

function pretty_print_internal ::
  "tlv list \<Rightarrow> bool \<Rightarrow> bool \<Rightarrow> nat \<Rightarrow> string list \<times> error option"
where
  "pretty_print_internal [] with_names with_details indent = ([], None)"
| "pretty_print_internal ((tag, len, v) # rest) with_names with_details indent =
     (let tag_name = (if with_names then get_tag_name tag else hex2 tag);
          this =
            (if is_nested_tlv v then
               (case pretty_print_internal (the_tlvs v) with_names with_details (indent + 1) of
                  (out, exc) \<Rightarrow> ((indentation indent @ tag_name @ '':'') # out, exc))
             else print_leaf tag tag_name v with_details indent)
      in case this of
           (out, Some e) \<Rightarrow> (out, Some e)
         | (out, None) \<Rightarrow>
             (case pretty_print_internal rest with_names with_details indent of
                (out', exc) \<Rightarrow> (out @ out', exc)))"
  by pat_completeness auto
termination
  by (relation "measure (\<lambda>(d, n, t, i). size_list (size_prod (\<lambda>x. 0) (size_prod (\<lambda>x. 0) size)) d)")
     (auto dest: is_nested_tlv_size)

definition pretty_print :: "tlv list \<Rightarrow> bool \<Rightarrow> bool \<Rightarrow> string list \<times> error option" where
  "pretty_print bertlv with_names with_details =
     pretty_print_internal bertlv with_names with_details 0"

section \<open>Reading from the card\<close>

text \<open>APDUs used when communicating with the card.\<close>

definition GET_DATA_NEXT :: "byte list" where
  "GET_DATA_NEXT = [0x10, 0xCA, 0x01, 0xF0, 0x02]"

definition GET_DATA_LAST :: "byte list" where
  "GET_DATA_LAST = [0x00, 0xCA, 0x01, 0xF0, 0x02]"

text \<open>SW1SW2 = 0x9000 indicates a successful transaction.\<close>

definition success :: "byte \<Rightarrow> byte \<Rightarrow> bool" where
  "success sw1 sw2 = (sw1 = 0x90 \<and> sw2 = 0)"

text \<open>
  The connection to the card is outside the program. It is modelled by the card's hidden
  state, a function that answers a command APDU in a state with the response, the status
  bytes SW1 and SW2 and the next state, and the log of the commands sent so far.
\<close>

type_synonym reply = "byte list \<times> byte \<times> byte"

type_synonym 's card = "byte list \<Rightarrow> 's \<Rightarrow> reply \<times> 's"

record 's connection =
  state :: 's
  sent :: "byte list list"

definition transmit :: "'s card \<Rightarrow> byte list \<Rightarrow> 's connection \<Rightarrow> reply \<times> 's connection" where
  "transmit dev apdu conn =
     (case dev apdu (state conn) of
        (r, s') \<Rightarrow> (r, conn\<lparr>state := s', sent := sent conn @ [apdu]\<rparr>))"

text \<open>
  The \<open>while True\<close> loop of \<open>read_chained_data\<close>. It is left either by the \<open>return\<close>
  after a status other than 0x9000 or by the \<open>break\<close> after a response shorter than 256
  bytes. The loop has no bound of its own, so the model is a partial function: \<open>None\<close>
  means that the loop never ends.
\<close>

datatype loop_exit = Return "byte list" byte byte | Break "byte list"

partial_function (option) read_chained_loop ::
  "'s card \<Rightarrow> byte list \<Rightarrow> byte list \<Rightarrow> 's connection \<Rightarrow> (loop_exit \<times> 's connection) option"
where
  "read_chained_loop dev record full_data conn =
     (case transmit dev (GET_DATA_NEXT @ record @ [0x00]) conn of
        ((response, sw1, sw2), conn') \<Rightarrow>
          (if \<not> success sw1 sw2 then Some (Return (full_data @ response) sw1 sw2, conn')
           else if length response < 256 then Some (Break (full_data @ response), conn')
           else read_chained_loop dev record (full_data @ response) conn'))"

text \<open>
  \<open>read_chained_data\<close>: use chained mode to read data structures that might be longer
  than 256 bytes. After the \<open>break\<close> the command that ends the chained mode is sent; its
  response is dropped, its status bytes are returned.
\<close>

definition read_chained_data ::
  "'s card \<Rightarrow> byte list \<Rightarrow> 's connection \<Rightarrow> ((byte list \<times> byte \<times> byte) \<times> 's connection) option"
where
  "read_chained_data dev record conn =
     (case read_chained_loop dev record [] conn of
        None \<Rightarrow> None
      | Some (Return full_data sw1 sw2, conn') \<Rightarrow> Some ((full_data, sw1, sw2), conn')
      | Some (Break full_data, conn') \<Rightarrow>
          (case transmit dev (GET_DATA_LAST @ record @ [0x00]) conn' of
             ((response, sw1, sw2), conn'') \<Rightarrow> Some ((full_data, sw1, sw2), conn'')))"

section \<open>Parse and pretty print TLV data\<close>

text \<open>
  The heuristic of \<open>pretty_print_block\<close>, the expression inside its \<open>try\<close>:
  \<open>get_child\<close> or \<open>get_value\<close> called on \<open>None\<close> raises AttributeError, \<open>None[0]\<close> raises
  TypeError and \<open>b''[0]\<close> raises IndexError.
\<close>

definition tlv_efs_test :: "tlv list \<Rightarrow> error + bool" where
  "tlv_efs_test t =
     (case get_child t BERECHTIGUNG of
        None \<Rightarrow> Inl AttributeError
      | Some c1 \<Rightarrow>
          (case get_child c1 BERECHTIGUNG_SEPARATE_DATEN of
             None \<Rightarrow> Inl AttributeError
           | Some c2 \<Rightarrow>
               (case get_value c2 BERECHTIGUNG_PRODUKTSPEZIFISCH of
                  None \<Rightarrow> Inl TypeError
                | Some [] \<Rightarrow> Inl IndexError
                | Some (b # bs) \<Rightarrow> Inr (b AND 0xF0 = 0xD0))))"

text \<open>
  \<open>pretty_print_block\<close>: the lines printed and the exception that leaves the function, if
  any. Only AttributeError is caught around the heuristic.
\<close>

definition pretty_print_block :: "byte list \<Rightarrow> byte \<Rightarrow> byte \<Rightarrow> string list \<times> error option" where
  "pretty_print_block response sw1 sw2 =
     (if success sw1 sw2 then
        (let t = BerTlv (Bytes response) in
         case (case tlv_efs_test t of
                 Inl e \<Rightarrow> (if e = AttributeError then Inr False else Inl e)
               | Inr b \<Rightarrow> Inr b) of
           Inl e \<Rightarrow> ([], Some e)
         | Inr is_tlv_efs \<Rightarrow>
             (let t' = (if is_tlv_efs then parse response True else t) in
              case pretty_print t' True True of
                (out, Some e) \<Rightarrow> (out, Some e)
              | (out, None) \<Rightarrow> (out @ [''''], None)))
      else ([''Fehler '' @ hex2 sw1 @ hex2 sw2, ''''], None))"

section \<open>Notions used to state the properties\<close>

text \<open>All elements of a tree, at any depth, parents before their children.\<close>

fun all_tlvs :: "tlv list \<Rightarrow> tlv list" where
  "all_tlvs [] = []"
| "all_tlvs ((tag, len, Bytes bs) # rest) = (tag, len, Bytes bs) # all_tlvs rest"
| "all_tlvs ((tag, len, Tlvs ts) # rest) = (tag, len, Tlvs ts) # all_tlvs ts @ all_tlvs rest"

text \<open>
  The number of bytes of \<open>data\<close> that the loop of \<open>_parse_internal\<close> takes for the
  elements it completes: the bytes from the start of \<open>data\<close> up to the point where the
  iterator runs out, at a tag boundary or inside an element.
\<close>

function whole_elements :: "byte list \<Rightarrow> nat" where
  "whole_elements data =
     (case read_tlv data of
        None \<Rightarrow> 0
      | Some (element, rest) \<Rightarrow> (length data - length rest) + whole_elements rest)"
  by pat_completeness auto
termination
proof (relation "measure length")
  show "wf (measure length)" by simp
next
  fix data :: "byte list" and x2 element rest
  assume "read_tlv data = Some x2" "(element, rest) = x2"
  then have "read_tlv data = Some ((fst element, fst (snd element), snd (snd element)), rest)"
    by simp
  from read_tlv_size(1) [OF this] show "(rest, data) \<in> measure length" by simp
qed

declare whole_elements.simps [simp del]

text \<open>The 32-bit value of four bytes, most significant byte first.\<close>

definition be32 :: "byte \<Rightarrow> byte \<Rightarrow> byte \<Rightarrow> byte \<Rightarrow> 32 word" where
  "be32 b0 b1 b2 b3 =
     push_bit 24 (ucast b0) + push_bit 16 (ucast b1) + push_bit 8 (ucast b2) + ucast b3"





text \<open>
  The reply of the card to the \<open>k\<close>-th repetition (from 0) of a command that is sent again
  and again, starting in the state \<open>s\<close>; and the replies that end the loop of
  \<open>read_chained_data\<close>: a status other than 0x9000 or a response shorter than 256 bytes.
\<close>

fun nth_reply :: "'s card \<Rightarrow> byte list \<Rightarrow> 's \<Rightarrow> nat \<Rightarrow> reply" where
  "nth_reply dev apdu s 0 = fst (dev apdu s)"
| "nth_reply dev apdu s (Suc k) = nth_reply dev apdu (snd (dev apdu s)) k"

definition ends_loop :: "reply \<Rightarrow> bool" where
  "ends_loop r = (case r of (response, sw1, sw2) \<Rightarrow> \<not> success sw1 sw2 \<or> length response < 256)"

text \<open>
  Three cards without state: one always answers with a full chunk of 256 bytes and the
  status 0x9000, one with the status 0x6A82 and no data, one with three bytes and the
  status 0x9000.
\<close>

definition full_card :: "unit card" where
  "full_card apdu s = ((replicate 256 0, 0x90, 0x00), s)"

definition failing_card :: "unit card" where
  "failing_card apdu s = (([], 0x6A, 0x82), s)"

definition short_card :: "unit card" where
  "short_card apdu s = (([1, 2, 3], 0x90, 0x00), s)"

text \<open>
  Whether a reply has the status 0x9000, and a card that counts the commands it has
  answered: it answers the first three with a full chunk of 256 bytes and every later
  one with 100 bytes, always with the status 0x9000.
\<close>

definition reply_success :: "reply \<Rightarrow> bool" where
  "reply_success r = (case r of (response, sw1, sw2) \<Rightarrow> success sw1 sw2)"

definition counting_card :: "nat card" where
  "counting_card apdu n = ((if n < 3 then replicate 256 0 else replicate 100 0, 0x90, 0x00), Suc n)"

text \<open>
  The state of the card after \<open>k\<close> repetitions of a command, starting in the state \<open>s\<close>,
  and the responses to the first \<open>k\<close> repetitions, one after the other.
\<close>

fun state_after :: "'s card \<Rightarrow> byte list \<Rightarrow> 's \<Rightarrow> nat \<Rightarrow> 's" where
  "state_after dev apdu s 0 = s"
| "state_after dev apdu s (Suc k) = state_after dev apdu (snd (dev apdu s)) k"

definition chunks :: "'s card \<Rightarrow> byte list \<Rightarrow> 's \<Rightarrow> nat \<Rightarrow> byte list" where
  "chunks dev apdu s k = concat (map (\<lambda>j. fst (nth_reply dev apdu s j)) [0..<k])"

text \<open>
  A card that counts the commands it has answered and tells the two commands apart: it
  answers the command that reads a chunk of the record 0xE1 0x01 with 256 bytes holding
  the count for the first two commands and with the three bytes 9, 9, 9 afterwards, always
  with the status 0x9000, and the command that ends the chained mode with one byte and
  the status 0x6283.
\<close>

definition numbering_card :: "nat card" where
  "numbering_card apdu n =
     (if apdu = GET_DATA_LAST @ [0xE1, 1] @ [0x00] then ([5], 0x62, 0x83)
      else if n < 2 then (replicate 256 (of_nat n), 0x90, 0x00)
      else ([9, 9, 9], 0x90, 0x00),
      Suc n)"

section \<open>Unfolding the parser\<close>

lemma parse_internal_None:
  "read_tlv data = None \<Longrightarrow> parse_internal m data = []"
  by (subst parse_internal.simps) simp

lemma parse_internal_Some:
  "read_tlv data = Some ((tag, len, v), rest) \<Longrightarrow>
   parse_internal m data =
     (tag, len,
      if (tag AND 0x20 \<noteq> 0 \<and> tag \<noteq> SCHLUESSELREGISTER_SEPARATE_DATEN)
         \<or> (m \<and> tag = BERECHTIGUNG_PRODUKTSPEZIFISCH)
      then Tlvs (parse_internal m v) else Bytes v) # parse_internal m rest"
  by (subst parse_internal.simps) simp

section \<open>Navigation: the n-th child\<close>

lemma get_nth_child_loop_passed:
  "no < count \<Longrightarrow> get_nth_child_loop bertlv tag no count = None"
  by (induction bertlv tag no count rule: get_nth_child_loop.induct) auto

lemma get_nth_child_loop_eq:
  "get_nth_child_loop bertlv tag (count + d) count =
     (let matching = filter (\<lambda>(temp, len, v). temp = tag) bertlv in
      if d < length matching \<and> is_nested_tlv (snd (snd (matching ! d)))
      then Some (the_tlvs (snd (snd (matching ! d)))) else None)"
proof (induction bertlv arbitrary: count d)
  case Nil
  then show ?case by simp
next
  case (Cons x bertlv)
  obtain temp len v where x: "x = (temp, len, v)" by (cases x)
  show ?case
  proof (cases "temp = tag")
    case False
    with x Cons show ?thesis by simp
  next
    case True
    show ?thesis
    proof (cases d)
      case 0
      show ?thesis
      proof (cases "is_nested_tlv v")
        case True
        with \<open>temp = tag\<close> x 0 show ?thesis
          by (cases v) (auto simp: is_nested_tlv_def BerTlv_def split: list.splits)
      next
        case False
        with \<open>temp = tag\<close> x 0 show ?thesis
          by (simp add: get_nth_child_loop_passed)
      qed
    next
      case (Suc d')
      with \<open>temp = tag\<close> x Cons [of "Suc count" d'] show ?thesis
        by (simp add: Let_def)
    qed
  qed
qed

text \<open>
  Claim C6, as the code has it. The claim counts the direct children whose tag is \<open>tag\<close>
  and whose payload is a nested sequence. The code counts every direct child whose tag is
  \<open>tag\<close>, whatever its payload: \<open>get_nth_child(tag, n)\<close> takes the child with index \<open>n\<close>
  (from 0) among the direct children with the tag, in the order of the tree. When the
  payload of that child is a nested sequence in the sense of the program's own test
  \<open>_is_nested_tlv\<close>, a list of elements that is not empty, the result is that sequence.
  When there are fewer than \<open>n + 1\<close> children with the tag, or that child is a leaf or an
  element without content, the result is \<open>None\<close>, a value and not an exception. In
  particular the result for index 5 is \<open>None\<close> on a tree with only two children with
  the tag.
\<close>

theorem get_nth_child_spec:
  "get_nth_child bertlv tag n =
     (let matching = filter (\<lambda>(temp, len, v). temp = tag) bertlv in
      if n < length matching \<and> is_nested_tlv (snd (snd (matching ! n)))
      then Some (the_tlvs (snd (snd (matching ! n)))) else None)
   \<and> (length (filter (\<lambda>(temp, len, v). temp = tag) bertlv) = 2 \<longrightarrow>
        get_nth_child bertlv tag 5 = None)"
  using get_nth_child_loop_eq [of bertlv tag 0 n] get_nth_child_loop_eq [of bertlv tag 0 5]
  by (simp add: get_nth_child_def Let_def)

theorem get_nth_child_spec_witness:
  "length (filter (\<lambda>(temp, len, v). temp = (0xE9 :: byte))
             [(0xE9, 3, Tlvs [(0xC0, 1, Bytes [1])]), (0x80, 0, Bytes []),
              (0xE9, 3, Tlvs [(0xC0, 1, Bytes [2])])]) = 2
   \<and> get_nth_child [(0xE9, 3, Tlvs [(0xC0, 1, Bytes [1])]), (0x80, 0, Bytes []),
                     (0xE9, 3, Tlvs [(0xC0, 1, Bytes [2])])] 0xE9 5 = None
   \<and> get_nth_child [(0xE9, 3, Tlvs [(0xC0, 1, Bytes [1])]), (0x80, 0, Bytes []),
                     (0xE9, 3, Tlvs [(0xC0, 1, Bytes [2])])] 0xE9 1
        = Some [(0xC0, 1, Bytes [2])]"
  using get_nth_child_spec [of "[(0xE9, 3, Tlvs [(0xC0, 1, Bytes [1])]), (0x80, 0, Bytes []),
              (0xE9, 3, Tlvs [(0xC0, 1, Bytes [2])])]" "0xE9" 1]
  by (simp add: is_nested_tlv_def)

text \<open>
  The claim C6 as stated fails. The parse of the seven bytes below has two direct
  children with tag 0xE9: a constructed element without content and a constructed element
  with one child. Only the second has a nested sequence as its payload, so it is the
  child with index 0 among the children with the tag and a nested payload, and the claim
  gives it for index 0. The code counts the first one too: it returns \<open>None\<close> for index 0
  and the sequence of the second for index 1.
\<close>

theorem get_nth_child_counterexample:
  "parse [0xE9, 0, 0xE9, 3, 0xC0, 1, 2] False =
     [(0xE9, 0, Tlvs []), (0xE9, 3, Tlvs [(0xC0, 1, Bytes [2])])]
   \<and> \<not> is_nested_tlv (Tlvs [])
   \<and> is_nested_tlv (Tlvs [(0xC0, 1, Bytes [2])])
   \<and> get_nth_child (parse [0xE9, 0, 0xE9, 3, 0xC0, 1, 2] False) 0xE9 0 = None
   \<and> get_nth_child (parse [0xE9, 0, 0xE9, 3, 0xC0, 1, 2] False) 0xE9 1
       = Some [(0xC0, 1, Bytes [2])]"
  by code_simp

section \<open>Properties of the parser\<close>

lemma whole_elements_None: "read_tlv data = None \<Longrightarrow> whole_elements data = 0"
  by (subst whole_elements.simps) simp

lemma whole_elements_Some:
  "read_tlv data = Some (e, rest) \<Longrightarrow> whole_elements data = (length data - length rest) + whole_elements rest"
  by (subst whole_elements.simps) simp

lemma next_n_append:
  "next_n k idata = Some (v, rest) \<Longrightarrow> idata = v @ rest \<and> (\<forall>ys. next_n k (v @ ys) = Some (v, ys))"
proof (induction k arbitrary: idata v)
  case 0
  then show ?case by simp
next
  case (Suc k)
  then show ?case by (cases idata) (auto split: option.splits)
qed

lemma read_long_length_append:
  "read_long_length n len idata = Some (l, rest) \<Longrightarrow>
   \<exists>el. idata = el @ rest \<and> (\<forall>ys. read_long_length n len (el @ ys) = Some (l, ys))"
proof (induction n arbitrary: len idata)
  case 0
  then show ?case by simp
next
  case (Suc n)
  then obtain b idata' where i: "idata = b # idata'" by (cases idata) auto
  with Suc.prems have "read_long_length n (push_bit 8 len OR unat b) idata' = Some (l, rest)" by simp
  from Suc.IH [OF this] obtain el where "idata' = el @ rest"
    "\<forall>ys. read_long_length n (push_bit 8 len OR unat b) (el @ ys) = Some (l, ys)" by blast
  with i have "idata = (b # el) @ rest \<and> (\<forall>ys. read_long_length (Suc n) len ((b # el) @ ys) = Some (l, ys))"
    by simp
  then show ?case by blast
qed

lemma read_tlv_append:
  assumes "read_tlv data = Some (e, rest)"
  shows "\<exists>el. data = el @ rest \<and> el \<noteq> [] \<and> (\<forall>ys. read_tlv (el @ ys) = Some (e, ys))"
proof -
  obtain tag len v where e: "e = (tag, len, v)" by (cases e)
  from assms e obtain len0 idata2 idata3 where
    i: "data = tag # len0 # idata2" and
    l: "(if len0 AND 0x80 \<noteq> 0 then read_long_length (unat (len0 AND 0x7f)) 0 idata2
         else Some (unat len0, idata2)) = Some (len, idata3)" and
    v: "next_n len idata3 = Some (v, rest)"
    unfolding read_tlv_def
    by (cases data; cases "tl data") (auto split: option.splits)
  from next_n_append [OF v] have v': "idata3 = v @ rest" "\<And>ys. next_n len (v @ ys) = Some (v, ys)"
    by simp_all
  from l obtain el where el: "idata2 = el @ idata3"
    "\<And>ys. (if len0 AND 0x80 \<noteq> 0 then read_long_length (unat (len0 AND 0x7f)) 0 (el @ ys)
         else Some (unat len0, el @ ys)) = Some (len, ys)"
  proof (cases "len0 AND 0x80 \<noteq> 0")
    case True
    with l have "read_long_length (unat (len0 AND 0x7f)) 0 idata2 = Some (len, idata3)" by simp
    from read_long_length_append [OF this] True that show ?thesis by auto
  next
    case False
    with l that [of "[]"] show ?thesis by simp
  qed
  have "data = (tag # len0 # el @ v) @ rest" using i el(1) v'(1) by simp
  moreover have "\<forall>ys. read_tlv ((tag # len0 # el @ v) @ ys) = Some (e, ys)"
    using el(2) [of "v @ _"] v'(2) e by (simp add: read_tlv_def)
  ultimately show ?thesis by blast
qed


lemma whole_elements_le: "whole_elements data \<le> length data"
proof (induction "length data" arbitrary: data rule: less_induct)
  case less
  show ?case
  proof (cases "read_tlv data")
    case None
    then show ?thesis by (simp add: whole_elements_None)
  next
    case (Some x)
    obtain e rest where x: "x = (e, rest)" by (cases x)
    obtain tag len v where e: "e = (tag, len, v)" by (cases e)
    from Some x e have r: "read_tlv data = Some ((tag, len, v), rest)" by simp
    from read_tlv_size(1) [OF r] have "length rest < length data" by simp
    from less [OF this] read_tlv_size(1) [OF r] show ?thesis
      using Some x by (simp add: whole_elements_Some)
  qed
qed

lemma node_origin:
  "(tag, len, v) \<in> set (all_tlvs (parse_internal m data)) \<Longrightarrow>
   \<exists>d bs rest. read_tlv d = Some ((tag, len, bs), rest)
      \<and> v = (if (tag AND 0x20 \<noteq> 0 \<and> tag \<noteq> 0xED) \<or> (m \<and> tag = 0x85)
             then Tlvs (parse_internal m bs) else Bytes bs)"
proof (induction "length data" arbitrary: data rule: less_induct)
  case less
  show ?case
  proof (cases "read_tlv data")
    case None
    with less.prems show ?thesis by (simp add: parse_internal_None)
  next
    case (Some x)
    obtain t l bs rest where x: "x = ((t, l, bs), rest)" by (cases x) auto
    with Some have r: "read_tlv data = Some ((t, l, bs), rest)" by simp
    from read_tlv_size(1) [OF r] have sz: "length rest < length data" "length bs < length data"
      by simp_all
    let ?c = "(t AND 0x20 \<noteq> 0 \<and> t \<noteq> 0xED) \<or> (m \<and> t = 0x85)"
    have p: "parse_internal m data =
        (t, l, if ?c then Tlvs (parse_internal m bs) else Bytes bs) # parse_internal m rest"
      using parse_internal_Some [OF r, of m]
      by (simp add: SCHLUESSELREGISTER_SEPARATE_DATEN_def BERECHTIGUNG_PRODUKTSPEZIFISCH_def)
    from less.prems p consider
        (head) "(tag, len, v) = (t, l, if ?c then Tlvs (parse_internal m bs) else Bytes bs)"
      | (inner) "?c" "(tag, len, v) \<in> set (all_tlvs (parse_internal m bs))"
      | (tail) "(tag, len, v) \<in> set (all_tlvs (parse_internal m rest))"
      by (auto split: if_splits)
    then show ?thesis
    proof cases
      case head
      with r show ?thesis by blast
    next
      case inner
      from less.hyps [OF sz(2) inner(2)] show ?thesis .
    next
      case tail
      from less.hyps [OF sz(1) tail] show ?thesis .
    qed
  qed
qed

lemma read_tlv_Nil: "read_tlv [] = None"
  by (simp add: read_tlv_def)

text \<open>
  The parse of a byte sequence is the parse of the sequence cut back to its last complete
  element, and the bytes after that point do not form an element.
\<close>

lemma parse_cut_back:
  "parse data m = parse (take (whole_elements data) data) m
   \<and> read_tlv (drop (whole_elements data) data) = None"
proof (induction "length data" arbitrary: data rule: less_induct)
  case less
  show ?case
  proof (cases "read_tlv data")
    case None
    then show ?thesis
      by (simp add: whole_elements_None parse_def parse_internal_None read_tlv_Nil)
  next
    case (Some x)
    obtain t l bs rest where x: "x = ((t, l, bs), rest)" by (cases x) auto
    with Some have r: "read_tlv data = Some ((t, l, bs), rest)" by simp
    from read_tlv_size(1) [OF r] have sz: "length rest < length data" by simp
    from read_tlv_append [OF r] obtain el where
      el: "data = el @ rest" "\<And>ys. read_tlv (el @ ys) = Some ((t, l, bs), ys)" by blast
    let ?w = "whole_elements rest"
    have w: "whole_elements data = length el + ?w"
      using whole_elements_Some [OF r] el(1) by simp
    have tk: "take (whole_elements data) data = el @ take ?w rest"
      and dr: "drop (whole_elements data) data = drop ?w rest"
      using w el(1) by simp_all
    from less [OF sz] have ih: "parse_internal m rest = parse_internal m (take ?w rest)"
      "read_tlv (drop ?w rest) = None" by (simp_all add: parse_def)
    have "parse_internal m (el @ take ?w rest) = parse_internal m data"
      using parse_internal_Some [OF el(2) [of "take ?w rest"], of m] parse_internal_Some [OF r, of m] ih(1)
      by simp
    with tk dr ih(2) show ?thesis by (simp add: parse_def)
  qed
qed

lemma parse_whole_elements:
  "list_all2 (\<lambda>el e. read_tlv el = Some (e, [])) els es \<Longrightarrow> read_tlv tail = None \<Longrightarrow>
   parse (concat els @ tail) m =
     map (\<lambda>(t, l, v). (t, l, if (t AND 0x20 \<noteq> 0 \<and> t \<noteq> 0xED) \<or> (m \<and> t = 0x85)
                              then Tlvs (parse v m) else Bytes v)) es"
proof (induction els es rule: list_all2_induct)
  case Nil
  then show ?case by (simp add: parse_def parse_internal_None)
next
  case (Cons el els e es)
  obtain t l v where e: "e = (t, l, v)" by (cases e)
  from read_tlv_append [OF Cons.hyps(1)]
  have "read_tlv (el @ concat els @ tail) = Some ((t, l, v), concat els @ tail)"
    using e by auto
  from parse_internal_Some [OF this, of m] Cons.IH [OF Cons.prems] e show ?case
    by (simp add: parse_def SCHLUESSELREGISTER_SEPARATE_DATEN_def
                  BERECHTIGUNG_PRODUKTSPEZIFISCH_def)
qed

lemma whole_elements_decompose:
  "\<exists>els es. list_all2 (\<lambda>el e. read_tlv el = Some (e, [])) els es
     \<and> take (whole_elements data) data = concat els"
proof (induction "length data" arbitrary: data rule: less_induct)
  case less
  show ?case
  proof (cases "read_tlv data")
    case None
    then have "take (whole_elements data) data = concat []"
      by (simp add: whole_elements_None)
    moreover have "list_all2 (\<lambda>el e. read_tlv el = Some (e, [])) [] []" by simp
    ultimately show ?thesis by blast
  next
    case (Some x)
    obtain e rest where x: "x = (e, rest)" by (cases x)
    obtain t l v where e: "e = (t, l, v)" by (cases e)
    from Some x e have r: "read_tlv data = Some ((t, l, v), rest)" by simp
    from read_tlv_size(1) [OF r] have sz: "length rest < length data" by simp
    from read_tlv_append [OF r] obtain el where
      el: "data = el @ rest" "\<And>ys. read_tlv (el @ ys) = Some ((t, l, v), ys)" by blast
    from el(2) [of "[]"] have one: "read_tlv el = Some ((t, l, v), [])" by simp
    from less [OF sz] obtain els es where
      ih: "list_all2 (\<lambda>el e. read_tlv el = Some (e, [])) els es"
          "take (whole_elements rest) rest = concat els" by blast
    have "whole_elements data = length el + whole_elements rest"
      using whole_elements_Some [OF r] el(1) by simp
    with el(1) ih(2) have "take (whole_elements data) data = concat (el # els)" by simp
    moreover from one ih(1)
    have "list_all2 (\<lambda>el e. read_tlv el = Some (e, [])) (el # els) ((t, l, v) # es)" by simp
    ultimately show ?thesis by blast
  qed
qed

text \<open>
  Claim C1, as the code has it. The claim says that a byte sequence that ends inside an
  element makes the parse fail. The code has no such error: the \<open>except StopIteration\<close>
  clause encloses the whole loop, so running out of bytes anywhere (after a tag, inside
  the length bytes, inside the value) ends the loop like the end of the data at a tag
  boundary does, and the elements completed before that point are returned. The statement
  has two parts. When the data are the encodings \<open>els\<close> of complete elements \<open>es\<close>, one
  after the other, followed by bytes \<open>tail\<close> that do not form an element (no bytes at all,
  or an element that the data end inside of), the result has exactly one node for each of
  the elements \<open>es\<close>, in their order, with the tag and the length that were read and with
  the value bytes or their parse as the payload: nothing for \<open>tail\<close>, and no error. And
  every byte sequence is of this form. The recursion limit of the interpreter is not
  part of the model: the statement is about inputs whose elements are nested less deeply
  than that limit allows, deeper ones make the program raise RecursionError.
\<close>

theorem parse_returns_whole_elements:
  "(list_all2 (\<lambda>el e. read_tlv el = Some (e, [])) els es \<and> read_tlv tail = None \<longrightarrow>
      parse (concat els @ tail) m =
        map (\<lambda>(t, l, v). (t, l, if (t AND 0x20 \<noteq> 0 \<and> t \<noteq> 0xED) \<or> (m \<and> t = 0x85)
                                 then Tlvs (parse v m) else Bytes v)) es)
   \<and> (\<exists>els es tail.
        data = concat els @ tail
        \<and> list_all2 (\<lambda>el e. read_tlv el = Some (e, [])) els es
        \<and> read_tlv tail = None
        \<and> parse data m =
            map (\<lambda>(t, l, v). (t, l, if (t AND 0x20 \<noteq> 0 \<and> t \<noteq> 0xED) \<or> (m \<and> t = 0x85)
                                     then Tlvs (parse v m) else Bytes v)) es)"
proof (intro conjI impI)
  assume "list_all2 (\<lambda>el e. read_tlv el = Some (e, [])) els es \<and> read_tlv tail = None"
  then show "parse (concat els @ tail) m =
        map (\<lambda>(t, l, v). (t, l, if (t AND 0x20 \<noteq> 0 \<and> t \<noteq> 0xED) \<or> (m \<and> t = 0x85)
                                 then Tlvs (parse v m) else Bytes v)) es"
    using parse_whole_elements by blast
next
  from whole_elements_decompose [of data] obtain els' es' where
    l: "list_all2 (\<lambda>el e. read_tlv el = Some (e, [])) els' es'" and
    t: "take (whole_elements data) data = concat els'" by blast
  have n: "read_tlv (drop (whole_elements data) data) = None"
    using parse_cut_back [of data m] by simp
  have d: "data = concat els' @ drop (whole_elements data) data"
    using t append_take_drop_id [of "whole_elements data" data] by simp
  from parse_whole_elements [OF l n, of m] d
  have "parse data m =
            map (\<lambda>(t, l, v). (t, l, if (t AND 0x20 \<noteq> 0 \<and> t \<noteq> 0xED) \<or> (m \<and> t = 0x85)
                                     then Tlvs (parse v m) else Bytes v)) es'"
    by simp
  with d l n show "\<exists>els es tail.
        data = concat els @ tail
        \<and> list_all2 (\<lambda>el e. read_tlv el = Some (e, [])) els es
        \<and> read_tlv tail = None
        \<and> parse data m =
            map (\<lambda>(t, l, v). (t, l, if (t AND 0x20 \<noteq> 0 \<and> t \<noteq> 0xED) \<or> (m \<and> t = 0x85)
                                     then Tlvs (parse v m) else Bytes v)) es"
    by blast
qed

theorem parse_returns_whole_elements_witness:
  "list_all2 (\<lambda>el e. read_tlv el = Some (e, []))
     [[0x80, 1, 0xAA], [0xE1, 3, 0xC0, 1, 2]] [(0x80, 1, [0xAA]), (0xE1, 3, [0xC0, 1, 2])]
   \<and> read_tlv [0x81, 2, 0xBB] = None
   \<and> parse [0x80, 1, 0xAA, 0xE1, 3, 0xC0, 1, 2, 0x81, 2, 0xBB] False =
       [(0x80, 1, Bytes [0xAA]), (0xE1, 3, Tlvs [(0xC0, 1, Bytes [2])])]"
proof -
  have h1: "list_all2 (\<lambda>el e. read_tlv el = Some (e, []))
     [[0x80, 1, 0xAA], [0xE1, 3, 0xC0, 1, 2]] [(0x80, 1, [0xAA]), (0xE1, 3, [0xC0, 1, 2])]"
    by code_simp
  have h2: "read_tlv [0x81, 2, 0xBB] = None"
    by code_simp
  have c: "concat [[0x80, 1, 0xAA], [0xE1, 3, 0xC0, 1, 2]] @ [0x81, 2, 0xBB] =
      [0x80, 1, 0xAA, 0xE1, 3, 0xC0, 1, 2, 0x81, 2, 0xBB :: byte]"
    by simp
  have m: "map (\<lambda>(t, l, v). (t, l, if (t AND 0x20 \<noteq> 0 \<and> t \<noteq> 0xED) \<or> (False \<and> t = 0x85)
                                 then Tlvs (parse v False) else Bytes v))
             [(0x80 :: byte, 1 :: nat, [0xAA]), (0xE1, 3, [0xC0, 1, 2])] =
      [(0x80, 1, Bytes [0xAA]), (0xE1, 3, Tlvs [(0xC0, 1, Bytes [2])])]"
    by code_simp
  note th = parse_returns_whole_elements
    [where els = "[[0x80, 1, 0xAA], [0xE1, 3, 0xC0, 1, 2]]"
       and es = "[(0x80, 1, [0xAA]), (0xE1, 3, [0xC0, 1, 2])]"
       and tail = "[0x81, 2, 0xBB]" and m = False, THEN conjunct1, unfolded c m]
  from th h1 h2
  have "parse [0x80, 1, 0xAA, 0xE1, 3, 0xC0, 1, 2, 0x81, 2, 0xBB] False =
       [(0x80, 1, Bytes [0xAA]), (0xE1, 3, Tlvs [(0xC0, 1, Bytes [2])])]"
    by blast
  with h1 h2 show ?thesis by blast
qed

text \<open>
  The claim C1 as stated fails: the three inputs below end inside the second element
  (inside its value, inside its long-form length, right after its tag), and each parse
  returns the partial tree with the first element instead of failing.
\<close>

theorem parse_truncated_counterexample:
  "parse [0x80, 1, 0xAA, 0x81, 2, 0xBB] False = [(0x80, 1, Bytes [0xAA])]
   \<and> parse [0x80, 1, 0xAA, 0x81, 0x82, 0x01] False = [(0x80, 1, Bytes [0xAA])]
   \<and> parse [0x80, 1, 0xAA, 0x81] False = [(0x80, 1, Bytes [0xAA])]
   \<and> read_tlv [0x81, 2, 0xBB] = None"
  by code_simp

text \<open>
  Claim C4. An element read with tag \<open>t\<close> under the mode flag \<open>m\<close> gets a nested value, the
  parse of its value bytes under the same flag, exactly when bit 0x20 of \<open>t\<close> is set and
  \<open>t\<close> is not 0xED, or \<open>m\<close> is set and \<open>t\<close> is 0x85; otherwise it keeps its value bytes. The
  same holds for every element of the tree at any depth. So an element with tag 0xED is
  always a leaf, and one with tag 0x85 is nested only under the flag.
\<close>

theorem parse_classification:
  "(read_tlv data = Some ((t, l, bs), rest) \<longrightarrow>
      parse data m =
        (t, l, if (t AND 0x20 \<noteq> 0 \<and> t \<noteq> 0xED) \<or> (m \<and> t = 0x85)
               then Tlvs (parse bs m) else Bytes bs) # parse rest m)
   \<and> (\<forall>(tag, len, v) \<in> set (all_tlvs (parse data m)).
       (case v of
          Tlvs ts \<Rightarrow> ((tag AND 0x20 \<noteq> 0 \<and> tag \<noteq> 0xED) \<or> (m \<and> tag = 0x85))
                      \<and> (\<exists>bs. length bs = len \<and> ts = parse bs m)
        | Bytes bs \<Rightarrow> \<not> ((tag AND 0x20 \<noteq> 0 \<and> tag \<noteq> 0xED) \<or> (m \<and> tag = 0x85))))"
proof (intro conjI impI)
  assume "read_tlv data = Some ((t, l, bs), rest)"
  from parse_internal_Some [OF this, of m]
  show "parse data m =
        (t, l, if (t AND 0x20 \<noteq> 0 \<and> t \<noteq> 0xED) \<or> (m \<and> t = 0x85)
               then Tlvs (parse bs m) else Bytes bs) # parse rest m"
    by (simp add: parse_def SCHLUESSELREGISTER_SEPARATE_DATEN_def
                  BERECHTIGUNG_PRODUKTSPEZIFISCH_def)
next
  show "\<forall>(tag, len, v) \<in> set (all_tlvs (parse data m)).
       (case v of
          Tlvs ts \<Rightarrow> ((tag AND 0x20 \<noteq> 0 \<and> tag \<noteq> 0xED) \<or> (m \<and> tag = 0x85))
                      \<and> (\<exists>bs. length bs = len \<and> ts = parse bs m)
        | Bytes bs \<Rightarrow> \<not> ((tag AND 0x20 \<noteq> 0 \<and> tag \<noteq> 0xED) \<or> (m \<and> tag = 0x85)))"
  proof (clarify)
    fix tag len v
    assume "(tag, len, v) \<in> set (all_tlvs (parse data m))"
    then have "(tag, len, v) \<in> set (all_tlvs (parse_internal m data))" by (simp add: parse_def)
    from node_origin [OF this] obtain d bs rest where
      r: "read_tlv d = Some ((tag, len, bs), rest)" and
      v: "v = (if (tag AND 0x20 \<noteq> 0 \<and> tag \<noteq> 0xED) \<or> (m \<and> tag = 0x85)
               then Tlvs (parse_internal m bs) else Bytes bs)" by blast
    from read_tlv_size(2) [OF r] v
    show "case v of
          Tlvs ts \<Rightarrow> ((tag AND 0x20 \<noteq> 0 \<and> tag \<noteq> 0xED) \<or> (m \<and> tag = 0x85))
                      \<and> (\<exists>bs. length bs = len \<and> ts = parse bs m)
        | Bytes bs \<Rightarrow> \<not> ((tag AND 0x20 \<noteq> 0 \<and> tag \<noteq> 0xED) \<or> (m \<and> tag = 0x85))"
      by (auto simp: parse_def)
  qed
qed

theorem parse_classification_witness:
  "read_tlv [0xED, 1, 0x80, 0x85, 2, 0xC0, 0] = Some ((0xED, 1, [0x80]), [0x85, 2, 0xC0, 0])
   \<and> parse [0xED, 1, 0x80, 0x85, 2, 0xC0, 0] True
       = (0xED, 1, Bytes [0x80]) # parse [0x85, 2, 0xC0, 0] True
   \<and> (0x85, 2, Tlvs [(0xC0, 0, Bytes [])]) \<in> set (all_tlvs (parse [0xED, 1, 0x80, 0x85, 2, 0xC0, 0] True))
   \<and> (\<exists>bs. length bs = 2 \<and> [(0xC0, 0, Bytes [])] = parse bs True)"
proof -
  have r: "read_tlv [0xED, 1, 0x80, 0x85, 2, 0xC0, 0] = Some ((0xED, 1, [0x80]), [0x85, 2, 0xC0, 0])"
    by code_simp
  have mem: "(0x85, 2, Tlvs [(0xC0, 0, Bytes [])])
      \<in> set (all_tlvs (parse [0xED, 1, 0x80, 0x85, 2, 0xC0, 0] True))"
    by code_simp
  note c = parse_classification [of "[0xED, 1, 0x80, 0x85, 2, 0xC0, 0]" "0xED" 1 "[0x80]"
      "[0x85, 2, 0xC0, 0]" True]
  from c r have a: "parse [0xED, 1, 0x80, 0x85, 2, 0xC0, 0] True
       = (0xED, 1, Bytes [0x80]) # parse [0x85, 2, 0xC0, 0] True"
    by simp
  from c mem have b: "\<exists>bs. length bs = 2 \<and> [(0xC0, 0, Bytes [])] = parse bs True"
    by fastforce
  from r mem a b show ?thesis by blast
qed

lemma read_tlv_split:
  assumes "read_tlv data = Some ((tag, len, v), rest)"
  shows "\<exists>hdr. data = hdr @ v @ rest \<and> (\<forall>ys. read_tlv (hdr @ v @ ys) = Some ((tag, len, v), ys))"
proof -
  from assms obtain len0 idata2 idata3 where
    i: "data = tag # len0 # idata2" and
    l: "(if len0 AND 0x80 \<noteq> 0 then read_long_length (unat (len0 AND 0x7f)) 0 idata2
         else Some (unat len0, idata2)) = Some (len, idata3)" and
    v: "next_n len idata3 = Some (v, rest)"
    unfolding read_tlv_def
    by (cases data; cases "tl data") (auto split: option.splits)
  from next_n_append [OF v] have v': "idata3 = v @ rest" "\<And>ys. next_n len (v @ ys) = Some (v, ys)"
    by simp_all
  from l obtain el where el: "idata2 = el @ idata3"
    "\<And>ys. (if len0 AND 0x80 \<noteq> 0 then read_long_length (unat (len0 AND 0x7f)) 0 (el @ ys)
         else Some (unat len0, el @ ys)) = Some (len, ys)"
  proof (cases "len0 AND 0x80 \<noteq> 0")
    case True
    with l have "read_long_length (unat (len0 AND 0x7f)) 0 idata2 = Some (len, idata3)" by simp
    from read_long_length_append [OF this] True that show ?thesis by auto
  next
    case False
    with l that [of "[]"] show ?thesis by simp
  qed
  have "data = (tag # len0 # el) @ v @ rest" using i el(1) v'(1) by simp
  moreover have "\<forall>ys. read_tlv ((tag # len0 # el) @ v @ ys) = Some ((tag, len, v), ys)"
    using el(2) [of "v @ _"] v'(2) by (simp add: read_tlv_def)
  ultimately show ?thesis by blast
qed

lemma node_located:
  "(tag, len, v) \<in> set (all_tlvs (parse_internal m data)) \<Longrightarrow>
   \<exists>pre hdr bs post. data = pre @ hdr @ bs @ post
      \<and> read_tlv (hdr @ bs) = Some ((tag, len, bs), [])
      \<and> v = (if (tag AND 0x20 \<noteq> 0 \<and> tag \<noteq> 0xED) \<or> (m \<and> tag = 0x85)
             then Tlvs (parse_internal m bs) else Bytes bs)"
proof (induction "length data" arbitrary: data rule: less_induct)
  case less
  show ?case
  proof (cases "read_tlv data")
    case None
    with less.prems show ?thesis by (simp add: parse_internal_None)
  next
    case (Some x)
    obtain t l bs rest where x: "x = ((t, l, bs), rest)" by (cases x) auto
    with Some have r: "read_tlv data = Some ((t, l, bs), rest)" by simp
    from read_tlv_size(1) [OF r] have sz: "length rest < length data" "length bs < length data"
      by simp_all
    from read_tlv_split [OF r] obtain hdr where
      d: "data = hdr @ bs @ rest" and h: "\<And>ys. read_tlv (hdr @ bs @ ys) = Some ((t, l, bs), ys)"
      by blast
    let ?c = "(t AND 0x20 \<noteq> 0 \<and> t \<noteq> 0xED) \<or> (m \<and> t = 0x85)"
    have p: "parse_internal m data =
        (t, l, if ?c then Tlvs (parse_internal m bs) else Bytes bs) # parse_internal m rest"
      using parse_internal_Some [OF r, of m]
      by (simp add: SCHLUESSELREGISTER_SEPARATE_DATEN_def BERECHTIGUNG_PRODUKTSPEZIFISCH_def)
    from less.prems p consider
        (head) "(tag, len, v) = (t, l, if ?c then Tlvs (parse_internal m bs) else Bytes bs)"
      | (inner) "?c" "(tag, len, v) \<in> set (all_tlvs (parse_internal m bs))"
      | (tail) "(tag, len, v) \<in> set (all_tlvs (parse_internal m rest))"
      by (auto split: if_splits)
    then show ?thesis
    proof cases
      case head
      from h [of "[]"] have "read_tlv (hdr @ bs) = Some ((t, l, bs), [])" by simp
      moreover from d have "data = [] @ hdr @ bs @ rest" by simp
      ultimately show ?thesis using head by blast
    next
      case inner
      from less.hyps [OF sz(2) inner(2)] obtain pre' hdr' bs' post' where
        b: "bs = pre' @ hdr' @ bs' @ post'" and
        r': "read_tlv (hdr' @ bs') = Some ((tag, len, bs'), [])" and
        v: "v = (if (tag AND 0x20 \<noteq> 0 \<and> tag \<noteq> 0xED) \<or> (m \<and> tag = 0x85)
             then Tlvs (parse_internal m bs') else Bytes bs')"
        by blast
      from d b have "data = (hdr @ pre') @ hdr' @ bs' @ (post' @ rest)" by simp
      with r' v show ?thesis by blast
    next
      case tail
      from less.hyps [OF sz(1) tail] obtain pre' hdr' bs' post' where
        b: "rest = pre' @ hdr' @ bs' @ post'" and
        r': "read_tlv (hdr' @ bs') = Some ((tag, len, bs'), [])" and
        v: "v = (if (tag AND 0x20 \<noteq> 0 \<and> tag \<noteq> 0xED) \<or> (m \<and> tag = 0x85)
             then Tlvs (parse_internal m bs') else Bytes bs')"
        by blast
      from d b have "data = (hdr @ bs @ pre') @ hdr' @ bs' @ post'" by simp
      with r' v show ?thesis by blast
    qed
  qed
qed

text \<open>
  Claim C5, as the code has it. Every element of a parsed tree, at any depth, was read
  from the data: the bytes of its tag and length and its value bytes \<open>bs\<close> stand one after
  the other in the data. The length field of the element is the number of those value
  bytes. A raw payload is those bytes, and a nested payload is the parse of those bytes.
  The encodings of the children take at most that many bytes; they take fewer when the
  value bytes end inside an element, which the parser drops (see C1).
\<close>

theorem parse_length_field:
  "\<forall>(tag, len, v) \<in> set (all_tlvs (parse data m)).
     \<exists>pre hdr bs post.
       data = pre @ hdr @ bs @ post
       \<and> read_tlv (hdr @ bs) = Some ((tag, len, bs), [])
       \<and> len = length bs
       \<and> (case v of
            Bytes b \<Rightarrow> b = bs
          | Tlvs ts \<Rightarrow> ts = parse bs m \<and> whole_elements bs \<le> len)"
proof (clarify)
  fix tag len v
  assume "(tag, len, v) \<in> set (all_tlvs (parse data m))"
  then have "(tag, len, v) \<in> set (all_tlvs (parse_internal m data))" by (simp add: parse_def)
  from node_located [OF this] obtain pre hdr bs post where
    d: "data = pre @ hdr @ bs @ post" and
    r: "read_tlv (hdr @ bs) = Some ((tag, len, bs), [])" and
    v: "v = (if (tag AND 0x20 \<noteq> 0 \<and> tag \<noteq> 0xED) \<or> (m \<and> tag = 0x85)
             then Tlvs (parse_internal m bs) else Bytes bs)" by blast
  from read_tlv_size(2) [OF r] v whole_elements_le [of bs]
  have "len = length bs \<and> (case v of Bytes b \<Rightarrow> b = bs
          | Tlvs ts \<Rightarrow> ts = parse bs m \<and> whole_elements bs \<le> len)"
    by (auto simp: parse_def)
  with d r show "\<exists>pre hdr bs post.
       data = pre @ hdr @ bs @ post
       \<and> read_tlv (hdr @ bs) = Some ((tag, len, bs), [])
       \<and> len = length bs
       \<and> (case v of
            Bytes b \<Rightarrow> b = bs
          | Tlvs ts \<Rightarrow> ts = parse bs m \<and> whole_elements bs \<le> len)"
    by blast
qed

theorem parse_length_field_witness:
  "(0xE0, 4, Tlvs [(0x80, 1, Bytes [0xAA])]) \<in> set (all_tlvs (parse [0xE0, 4, 0x80, 1, 0xAA, 0x81] False))
   \<and> (\<exists>pre hdr bs post.
         [0xE0, 4, 0x80, 1, 0xAA, 0x81] = pre @ hdr @ bs @ post
         \<and> read_tlv (hdr @ bs) = Some ((0xE0, 4, bs), [])
         \<and> 4 = length bs
         \<and> [(0x80, 1, Bytes [0xAA])] = parse bs False \<and> whole_elements bs \<le> 4)"
proof -
  have mem: "(0xE0, 4, Tlvs [(0x80, 1, Bytes [0xAA])])
      \<in> set (all_tlvs (parse [0xE0, 4, 0x80, 1, 0xAA, 0x81] False))"
    by code_simp
  from parse_length_field [of "[0xE0, 4, 0x80, 1, 0xAA, 0x81]" False] mem
  have "\<exists>pre hdr bs post.
         [0xE0, 4, 0x80, 1, 0xAA, 0x81] = pre @ hdr @ bs @ post
         \<and> read_tlv (hdr @ bs) = Some ((0xE0, 4, bs), [])
         \<and> 4 = length bs
         \<and> [(0x80, 1, Bytes [0xAA])] = parse bs False \<and> whole_elements bs \<le> 4"
    by fastforce
  with mem show ?thesis by blast
qed

text \<open>
  The claim C5 as stated fails for a nested payload whose block ends inside an element:
  the element with tag 0xE0 below has the length field 4 and one child, and the child
  sequence is encoded in 3 bytes (0x80, 1, 0xAA); the fourth byte of the block starts an
  element that is dropped.
\<close>

theorem parse_length_field_counterexample:
  "parse [0xE0, 4, 0x80, 1, 0xAA, 0x81] False = [(0xE0, 4, Tlvs [(0x80, 1, Bytes [0xAA])])]
   \<and> parse [0x80, 1, 0xAA, 0x81] False = [(0x80, 1, Bytes [0xAA])]
   \<and> whole_elements [0x80, 1, 0xAA, 0x81] = 3
   \<and> whole_elements [0x80, 1, 0xAA, 0x81] \<noteq> 4"
  by code_simp

text \<open>
  Claim C10. When the tree parsed in the default mode has no element with tag 0x85 at any
  depth, the parse of the same bytes in the TLV-EFS mode gives the same tree.
\<close>

theorem parse_tlvefs_irrelevant:
  "0x85 \<notin> fst ` set (all_tlvs (parse data False)) \<Longrightarrow> parse data True = parse data False"
proof (induction "length data" arbitrary: data rule: less_induct)
  case less
  show ?case
  proof (cases "read_tlv data")
    case None
    then show ?thesis by (simp add: parse_def parse_internal_None)
  next
    case (Some x)
    obtain t l bs rest where x: "x = ((t, l, bs), rest)" by (cases x) auto
    with Some have r: "read_tlv data = Some ((t, l, bs), rest)" by simp
    from read_tlv_size(1) [OF r] have sz: "length rest < length data" "length bs < length data"
      by simp_all
    let ?c = "t AND 0x20 \<noteq> 0 \<and> t \<noteq> SCHLUESSELREGISTER_SEPARATE_DATEN"
    have pF: "parse data False =
        (t, l, if ?c then Tlvs (parse bs False) else Bytes bs) # parse rest False"
      using parse_internal_Some [OF r, of False] by (simp add: parse_def)
    have pT: "parse data True =
        (t, l, if ?c \<or> t = BERECHTIGUNG_PRODUKTSPEZIFISCH then Tlvs (parse bs True) else Bytes bs)
        # parse rest True"
      using parse_internal_Some [OF r, of True] by (simp add: parse_def)
    from less.prems pF have t: "t \<noteq> 0x85" by (auto split: if_splits)
    from less.prems pF have "0x85 \<notin> fst ` set (all_tlvs (parse rest False))"
      by (auto split: if_splits)
    from less.hyps [OF sz(1) this] have rest: "parse rest True = parse rest False" .
    show ?thesis
    proof (cases ?c)
      case True
      with less.prems pF have "0x85 \<notin> fst ` set (all_tlvs (parse bs False))"
        by auto
      from less.hyps [OF sz(2) this] True rest pF pT show ?thesis by simp
    next
      case False
      with t rest pF pT show ?thesis by (simp add: BERECHTIGUNG_PRODUKTSPEZIFISCH_def)
    qed
  qed
qed

theorem parse_tlvefs_irrelevant_witness:
  "0x85 \<notin> fst ` set (all_tlvs (parse [0xE1, 6, 0x80, 1, 7, 0xED, 1, 0x85] False))
   \<and> parse [0xE1, 6, 0x80, 1, 7, 0xED, 1, 0x85] True
       = parse [0xE1, 6, 0x80, 1, 7, 0xED, 1, 0x85] False"
proof -
  have h: "0x85 \<notin> fst ` set (all_tlvs (parse [0xE1, 6, 0x80, 1, 7, 0xED, 1, 0x85] False))"
    by code_simp
  from h parse_tlvefs_irrelevant [OF h] show ?thesis by blast
qed

text \<open>With an element of tag 0x85 in the tree the two modes do differ.\<close>

lemma parse_tlvefs_differs:
  "parse [0x85, 3, 0xDA, 1, 7] False = [(0x85, 3, Bytes [0xDA, 1, 7])]
   \<and> parse [0x85, 3, 0xDA, 1, 7] True = [(0x85, 3, Tlvs [(0xDA, 1, Bytes [7])])]"
  by code_simp

section \<open>Properties of the field decoder\<close>

lemma uint_byte_bounds: "0 \<le> uint (b :: byte)" "uint (b :: byte) < 256"
  using uint_bounded [of b] by simp_all

lemma uint_be32:
  "uint (be32 b0 b1 b2 b3) = push_bit 24 (uint b0) + push_bit 16 (uint b1) + push_bit 8 (uint b2) + uint b3"
proof -
  note b = uint_byte_bounds [of b0] uint_byte_bounds [of b1] uint_byte_bounds [of b2] uint_byte_bounds [of b3]
  have "uint (be32 b0 b1 b2 b3) =
     (uint b0 * 2 ^ 24 + uint b1 * 2 ^ 16 + uint b2 * 2 ^ 8 + uint b3) mod 2 ^ 32"
    unfolding be32_def
    by (simp add: uint_word_ariths unsigned_push_bit_eq unsigned_ucast_eq take_bit_eq_mod
        push_bit_eq_mult mod_simps)
  also have "\<dots> = uint b0 * 2 ^ 24 + uint b1 * 2 ^ 16 + uint b2 * 2 ^ 8 + uint b3"
    using b by (intro mod_pos_pos_trivial) simp_all
  finally show ?thesis by (simp add: push_bit_eq_mult)
qed

lemma and_15: "(x::int) AND 0xF = take_bit 4 x"
  by (simp add: take_bit_eq_mask mask_eq_exp_minus_1)

lemma and_31: "(x::int) AND 0x1F = take_bit 5 x"
  by (simp add: take_bit_eq_mask mask_eq_exp_minus_1)

lemma and_63: "(x::int) AND 0x3F = take_bit 6 x"
  by (simp add: take_bit_eq_mask mask_eq_exp_minus_1)

lemma decode_datetimecompact_word: "decode_datetimecompact (uint (dt :: 32 word)) =
   (uint (drop_bit 25 dt) + 1990, uint (take_bit 4 (drop_bit 21 dt)), uint (take_bit 5 (drop_bit 16 dt)),
    uint (take_bit 5 (drop_bit 11 dt)), uint (take_bit 6 (drop_bit 5 dt)), uint (take_bit 5 dt) * 2)"
proof -
  have "take_bit 32 (uint dt) = uint dt"
    using uint_bounded [of dt] by (intro take_bit_int_eq_self) simp_all
  then show ?thesis
    by (simp add: decode_datetimecompact_def and_15 and_31 and_63 unsigned_drop_bit_eq
        unsigned_take_bit_eq)
qed

lemma dec_digits_length: "0 < w \<Longrightarrow> n < 10 ^ w \<Longrightarrow> length (dec_digits n) \<le> w"
proof (induction w arbitrary: n)
  case 0
  then show ?case by simp
next
  case (Suc w)
  show ?case
  proof (cases "n < 10")
    case True
    then show ?thesis by (subst dec_digits.simps) simp
  next
    case False
    with Suc.prems have w: "0 < w" by (cases w) auto
    from Suc.prems have "n div 10 < 10 ^ w" by simp
    from Suc.IH [OF w this] False show ?thesis by (subst dec_digits.simps) simp
  qed
qed

lemma dec_digits_set: "0 \<le> n \<Longrightarrow> set (dec_digits n) \<subseteq> set ''0123456789''"
proof (induction n rule: dec_digits.induct)
  case (1 n)
  show ?case
  proof (cases "n < 10")
    case True
    with 1 have "nat n < 10" by simp
    then have "''0123456789'' ! nat n \<in> set ''0123456789''" by (intro nth_mem) simp
    with True show ?thesis by (subst dec_digits.simps) simp
  next
    case False
    with 1 have "set (dec_digits (n div 10)) \<subseteq> set ''0123456789''" by simp
    moreover from 1 have "nat (n mod 10) < 10" by simp
    then have "''0123456789'' ! nat (n mod 10) \<in> set ''0123456789''" by (intro nth_mem) simp
    ultimately show ?thesis using False by (subst dec_digits.simps) simp
  qed
qed

lemma fmt_d_length: "0 < w \<Longrightarrow> 0 \<le> n \<Longrightarrow> n < 10 ^ w \<Longrightarrow> length (fmt_d w n) = w"
  using dec_digits_length [of w n] by (simp add: fmt_d_def)

lemma fmt_d_set: "0 \<le> n \<Longrightarrow> set (fmt_d w n) \<subseteq> set ''0123456789''"
  using dec_digits_set [of n] by (auto simp: fmt_d_def)


lemma next_n_4: "next_n 4 (b0 # b1 # b2 # b3 # rest) = Some ([b0, b1, b2, b3], rest)"
  by (simp add: eval_nat_numeral)

lemma decode_field_D:
  "decode_field ''D'' (b0 # b1 # b2 # b3 # rest) =
     (case decode_datetimecompact (uint (be32 b0 b1 b2 b3)) of
        (year, month, day, hour, minute, sec) \<Rightarrow>
          Inr (StrVal (fmt_d 4 year @ ''-'' @ fmt_d 2 month @ ''-'' @ fmt_d 2 day @ '' ''
                       @ fmt_d 2 hour @ '':'' @ fmt_d 2 minute @ '':'' @ fmt_d 2 sec), rest))"
  by (simp add: decode_field_def next_n_4 uint_be32)

lemma year_bound: "uint (drop_bit 25 (dt :: 32 word)) < 128"
proof -
  have "take_bit 32 (uint dt) = uint dt"
    using uint_bounded [of dt] by (intro take_bit_int_eq_self) simp_all
  then have "uint (drop_bit 25 dt) = drop_bit 25 (uint dt)"
    by (simp add: unsigned_drop_bit_eq)
  also have "\<dots> = uint dt div 2 ^ 25"
    by (rule drop_bit_eq_div)
  finally show ?thesis using uint_bounded [of dt] by simp
qed

lemma field_bound: "uint (take_bit n (x :: 32 word)) < 2 ^ n"
  by (simp add: unsigned_take_bit_eq)

text \<open>
  Claim C9. For the four bytes \<open>b0 b1 b2 b3\<close> of a DateTimeCompact field, with \<open>dt\<close> their
  32-bit big-endian value: the year is bits 31..25 of \<open>dt\<close> plus 1990, the month bits
  24..21, the day bits 20..16, the hour bits 15..11, the minute bits 10..5, and the
  seconds are bits 4..0 times 2. The field is rendered as \<open>YYYY-MM-DD HH:MM:SS\<close>: the
  year takes exactly four decimal digits and every other component exactly two, padded
  with zeros. The string is a function of the four bytes alone, so the same bytes always
  give the same string; the bytes 3C 8C 61 00 give \<open>2020-04-12 12:08:00\<close>.
\<close>

theorem datetimecompact_field:
  "(let dt = be32 b0 b1 b2 b3;
        year = uint (drop_bit 25 dt) + 1990;
        month = uint (take_bit 4 (drop_bit 21 dt));
        day = uint (take_bit 5 (drop_bit 16 dt));
        hour = uint (take_bit 5 (drop_bit 11 dt));
        minute = uint (take_bit 6 (drop_bit 5 dt));
        sec = uint (take_bit 5 dt) * 2
    in decode_datetimecompact (uint dt) = (year, month, day, hour, minute, sec)
       \<and> decode_field ''D'' (b0 # b1 # b2 # b3 # rest) =
           Inr (StrVal (fmt_d 4 year @ ''-'' @ fmt_d 2 month @ ''-'' @ fmt_d 2 day @ '' ''
                        @ fmt_d 2 hour @ '':'' @ fmt_d 2 minute @ '':'' @ fmt_d 2 sec), rest)
       \<and> length (fmt_d 4 year) = 4 \<and> length (fmt_d 2 month) = 2 \<and> length (fmt_d 2 day) = 2
       \<and> length (fmt_d 2 hour) = 2 \<and> length (fmt_d 2 minute) = 2 \<and> length (fmt_d 2 sec) = 2
       \<and> set (fmt_d 4 year @ fmt_d 2 month @ fmt_d 2 day @ fmt_d 2 hour @ fmt_d 2 minute
               @ fmt_d 2 sec) \<subseteq> set ''0123456789'')
   \<and> uint (be32 0x3C 0x8C 0x61 0x00) = 0x3C8C6100
   \<and> decode_field ''D'' [0x3C, 0x8C, 0x61, 0x00] = Inr (StrVal ''2020-04-12 12:08:00'', [])"
proof -
  define dt where "dt = be32 b0 b1 b2 b3"
  note fb = field_bound [of 4 "drop_bit 21 dt"] field_bound [of 5 "drop_bit 16 dt"]
    field_bound [of 5 "drop_bit 11 dt"] field_bound [of 6 "drop_bit 5 dt"] field_bound [of 5 dt]
    year_bound [of dt]
  have l: "length (fmt_d 4 (uint (drop_bit 25 dt) + 1990)) = 4"
    "length (fmt_d 2 (uint (take_bit 4 (drop_bit 21 dt)))) = 2"
    "length (fmt_d 2 (uint (take_bit 5 (drop_bit 16 dt)))) = 2"
    "length (fmt_d 2 (uint (take_bit 5 (drop_bit 11 dt)))) = 2"
    "length (fmt_d 2 (uint (take_bit 6 (drop_bit 5 dt)))) = 2"
    "length (fmt_d 2 (uint (take_bit 5 dt) * 2)) = 2"
    using fb by (simp_all add: fmt_d_length)
  have s: "set (fmt_d 4 (uint (drop_bit 25 dt) + 1990)) \<subseteq> set ''0123456789''"
    "set (fmt_d 2 (uint (take_bit 4 (drop_bit 21 dt)))) \<subseteq> set ''0123456789''"
    "set (fmt_d 2 (uint (take_bit 5 (drop_bit 16 dt)))) \<subseteq> set ''0123456789''"
    "set (fmt_d 2 (uint (take_bit 5 (drop_bit 11 dt)))) \<subseteq> set ''0123456789''"
    "set (fmt_d 2 (uint (take_bit 6 (drop_bit 5 dt)))) \<subseteq> set ''0123456789''"
    "set (fmt_d 2 (uint (take_bit 5 dt) * 2)) \<subseteq> set ''0123456789''"
    by (rule fmt_d_set; simp)+
  have s': "set (fmt_d 4 (uint (drop_bit 25 dt) + 1990) @ fmt_d 2 (uint (take_bit 4 (drop_bit 21 dt)))
        @ fmt_d 2 (uint (take_bit 5 (drop_bit 16 dt))) @ fmt_d 2 (uint (take_bit 5 (drop_bit 11 dt)))
        @ fmt_d 2 (uint (take_bit 6 (drop_bit 5 dt))) @ fmt_d 2 (uint (take_bit 5 dt) * 2))
      \<subseteq> set ''0123456789''"
    using s by (simp only: set_append Un_subset_iff simp_thms)
  have d: "decode_field ''D'' (b0 # b1 # b2 # b3 # rest) =
      Inr (StrVal (fmt_d 4 (uint (drop_bit 25 dt) + 1990) @ ''-''
                   @ fmt_d 2 (uint (take_bit 4 (drop_bit 21 dt))) @ ''-''
                   @ fmt_d 2 (uint (take_bit 5 (drop_bit 16 dt))) @ '' ''
                   @ fmt_d 2 (uint (take_bit 5 (drop_bit 11 dt))) @ '':''
                   @ fmt_d 2 (uint (take_bit 6 (drop_bit 5 dt))) @ '':''
                   @ fmt_d 2 (uint (take_bit 5 dt) * 2)), rest)"
    by (simp add: decode_field_D decode_datetimecompact_word dt_def)
  have e1: "uint (be32 0x3C 0x8C 0x61 0x00) = 0x3C8C6100"
    by (simp add: uint_be32)
  have e2: "decode_field ''D'' [0x3C, 0x8C, 0x61, 0x00] = Inr (StrVal ''2020-04-12 12:08:00'', [])"
    by code_simp
  from l s' d e1 e2 decode_datetimecompact_word [of dt] show ?thesis
    unfolding Let_def dt_def [symmetric] by blast
qed

section \<open>Properties of the rendering\<close>










































section \<open>Properties of the chained read\<close>

lemma transmit_eq:
  "transmit dev apdu conn = (r, conn') \<longleftrightarrow>
     r = fst (dev apdu (state conn))
     \<and> conn' = conn\<lparr>state := snd (dev apdu (state conn)), sent := sent conn @ [apdu]\<rparr>"
  by (auto simp: transmit_def split: prod.splits)

lemma read_chained_loop_step:
  assumes "transmit dev (GET_DATA_NEXT @ rcd @ [0x00]) conn = ((response, sw1, sw2), conn')"
  shows "read_chained_loop dev rcd full_data conn =
     (if \<not> success sw1 sw2 then Some (Return (full_data @ response) sw1 sw2, conn')
      else if length response < 256 then Some (Break (full_data @ response), conn')
      else read_chained_loop dev rcd (full_data @ response) conn')"
  using assms by (subst read_chained_loop.simps) simp

lemma read_chained_loop_ends:
  "ends_loop (nth_reply dev (GET_DATA_NEXT @ rcd @ [0x00]) (state conn) k) \<Longrightarrow>
   \<exists>y. read_chained_loop dev rcd full_data conn = Some y"
proof (induction k arbitrary: conn full_data)
  case 0
  obtain response sw1 sw2 conn' where
    t: "transmit dev (GET_DATA_NEXT @ rcd @ [0x00]) conn = ((response, sw1, sw2), conn')"
    by (metis prod.exhaust)
  then have "fst (dev (GET_DATA_NEXT @ rcd @ [0x00]) (state conn)) = (response, sw1, sw2)"
    by (simp add: transmit_eq)
  with 0 show ?case
    unfolding read_chained_loop_step [OF t] by (auto simp: ends_loop_def)
next
  case (Suc k)
  obtain response sw1 sw2 conn' where
    t: "transmit dev (GET_DATA_NEXT @ rcd @ [0x00]) conn = ((response, sw1, sw2), conn')"
    by (metis prod.exhaust)
  then have "state conn' = snd (dev (GET_DATA_NEXT @ rcd @ [0x00]) (state conn))"
    by (simp add: transmit_eq)
  with Suc.prems
  have "ends_loop (nth_reply dev (GET_DATA_NEXT @ rcd @ [0x00]) (state conn') k)" by simp
  from Suc.IH [OF this, of "full_data @ response"] show ?case
    unfolding read_chained_loop_step [OF t] by auto
qed

lemma read_chained_loop_returns:
  assumes "read_chained_loop dev rcd full_data conn = Some y"
  shows "(\<exists>k. ends_loop (nth_reply dev (GET_DATA_NEXT @ rcd @ [0x00]) (state conn) k))
   \<and> (\<exists>k. sent (snd y) = sent conn @ replicate (Suc k) (GET_DATA_NEXT @ rcd @ [0x00]))
   \<and> (case fst y of Return d sw1 sw2 \<Rightarrow> \<not> success sw1 sw2 | Break d \<Rightarrow> True)"
proof (rule read_chained_loop.raw_induct
    [where P = "\<lambda>dev rcd full_data conn y.
       (\<exists>k. ends_loop (nth_reply dev (GET_DATA_NEXT @ rcd @ [0x00]) (state conn) k))
       \<and> (\<exists>k. sent (snd y) = sent conn @ replicate (Suc k) (GET_DATA_NEXT @ rcd @ [0x00]))
       \<and> (case fst y of Return d sw1 sw2 \<Rightarrow> \<not> success sw1 sw2 | Break d \<Rightarrow> True)",
     OF _ assms])
  fix loop :: "'a card \<Rightarrow> byte list \<Rightarrow> byte list \<Rightarrow> 'a connection \<Rightarrow> (loop_exit \<times> 'a connection) option"
  fix dev :: "'a card" and rcd full_data :: "byte list" and conn :: "'a connection" and y
  let ?next = "GET_DATA_NEXT @ rcd @ [0x00]"
  assume ih: "\<And>dev rcd full_data conn y. loop dev rcd full_data conn = Some y \<Longrightarrow>
       (\<exists>k. ends_loop (nth_reply dev (GET_DATA_NEXT @ rcd @ [0x00]) (state conn) k))
       \<and> (\<exists>k. sent (snd y) = sent conn @ replicate (Suc k) (GET_DATA_NEXT @ rcd @ [0x00]))
       \<and> (case fst y of Return d sw1 sw2 \<Rightarrow> \<not> success sw1 sw2 | Break d \<Rightarrow> True)"
  assume body: "(case transmit dev ?next conn of
        ((response, sw1, sw2), conn') \<Rightarrow>
          (if \<not> success sw1 sw2 then Some (Return (full_data @ response) sw1 sw2, conn')
           else if length response < 256 then Some (Break (full_data @ response), conn')
           else loop dev rcd (full_data @ response) conn')) = Some y"
  obtain response sw1 sw2 conn' where
    t: "transmit dev ?next conn = ((response, sw1, sw2), conn')"
    by (metis prod.exhaust)
  then have r: "fst (dev ?next (state conn)) = (response, sw1, sw2)"
    and s: "state conn' = snd (dev ?next (state conn))"
    and l: "sent conn' = sent conn @ [?next]"
    by (simp_all add: transmit_eq)
  show "(\<exists>k. ends_loop (nth_reply dev ?next (state conn) k))
       \<and> (\<exists>k. sent (snd y) = sent conn @ replicate (Suc k) ?next)
       \<and> (case fst y of Return d sw1 sw2 \<Rightarrow> \<not> success sw1 sw2 | Break d \<Rightarrow> True)"
  proof (cases "\<not> success sw1 sw2 \<or> length response < 256")
    case True
    with r have "ends_loop (nth_reply dev ?next (state conn) 0)"
      by (simp add: ends_loop_def)
    moreover from True t body l
    have "sent (snd y) = sent conn @ replicate (Suc 0) ?next"
      "case fst y of Return d sw1 sw2 \<Rightarrow> \<not> success sw1 sw2 | Break d \<Rightarrow> True"
      by (auto split: if_splits)
    ultimately show ?thesis by blast
  next
    case False
    with t body have "loop dev rcd (full_data @ response) conn' = Some y"
      by simp
    from ih [OF this] s l obtain k j where
      k: "ends_loop (nth_reply dev ?next (snd (dev ?next (state conn))) k)" and
      j: "sent (snd y) = (sent conn @ [?next]) @ replicate (Suc j) ?next" and
      e: "case fst y of Return d sw1 sw2 \<Rightarrow> \<not> success sw1 sw2 | Break d \<Rightarrow> True"
      by auto
    from k have "ends_loop (nth_reply dev ?next (state conn) (Suc k))"
      by simp
    moreover from j
    have "sent (snd y) = sent conn @ replicate (Suc (Suc j)) ?next"
      by (simp add: replicate_app_Cons_same)
    ultimately show ?thesis using e by blast
  qed
qed

lemma next_last_differ: "GET_DATA_NEXT @ rcd @ [0x00] \<noteq> GET_DATA_LAST @ rcd @ [0x00]"
  by (simp add: GET_DATA_NEXT_def GET_DATA_LAST_def)

lemma chunks_Suc:
  "chunks dev apdu s (Suc k) = fst (fst (dev apdu s)) @ chunks dev apdu (snd (dev apdu s)) k"
  by (simp add: chunks_def map_upt_Suc del: upt_Suc)

lemma read_chained_loop_result:
  "ends_loop (nth_reply dev (GET_DATA_NEXT @ rcd @ [0x00]) (state conn) k) \<Longrightarrow>
   (\<forall>j<k. \<not> ends_loop (nth_reply dev (GET_DATA_NEXT @ rcd @ [0x00]) (state conn) j)) \<Longrightarrow>
   read_chained_loop dev rcd full_data conn =
     Some (if reply_success (nth_reply dev (GET_DATA_NEXT @ rcd @ [0x00]) (state conn) k)
           then Break (full_data @ chunks dev (GET_DATA_NEXT @ rcd @ [0x00]) (state conn) (Suc k))
           else Return (full_data @ chunks dev (GET_DATA_NEXT @ rcd @ [0x00]) (state conn) (Suc k))
                  (fst (snd (nth_reply dev (GET_DATA_NEXT @ rcd @ [0x00]) (state conn) k)))
                  (snd (snd (nth_reply dev (GET_DATA_NEXT @ rcd @ [0x00]) (state conn) k))),
           conn\<lparr>state := state_after dev (GET_DATA_NEXT @ rcd @ [0x00]) (state conn) (Suc k),
                sent := sent conn @ replicate (Suc k) (GET_DATA_NEXT @ rcd @ [0x00])\<rparr>)"
proof (induction k arbitrary: conn full_data)
  case 0
  let ?next = "GET_DATA_NEXT @ rcd @ [0x00]"
  obtain response sw1 sw2 conn' where
    t: "transmit dev ?next conn = ((response, sw1, sw2), conn')"
    by (metis prod.exhaust)
  then have r: "fst (dev ?next (state conn)) = (response, sw1, sw2)"
    and c: "conn' = conn\<lparr>state := snd (dev ?next (state conn)), sent := sent conn @ [?next]\<rparr>"
    by (simp_all add: transmit_eq)
  with 0 show ?case
    unfolding read_chained_loop_step [OF t]
    by (auto simp: ends_loop_def reply_success_def chunks_Suc chunks_def)
next
  case (Suc k)
  let ?next = "GET_DATA_NEXT @ rcd @ [0x00]"
  obtain response sw1 sw2 conn' where
    t: "transmit dev ?next conn = ((response, sw1, sw2), conn')"
    by (metis prod.exhaust)
  then have r: "fst (dev ?next (state conn)) = (response, sw1, sw2)"
    and c: "conn' = conn\<lparr>state := snd (dev ?next (state conn)), sent := sent conn @ [?next]\<rparr>"
    by (simp_all add: transmit_eq)
  from c have s: "state conn' = snd (dev ?next (state conn))"
    and l: "sent conn' = sent conn @ [?next]"
    by simp_all
  from Suc.prems(2) have "\<not> ends_loop (nth_reply dev ?next (state conn) 0)" by blast
  with r have go: "success sw1 sw2" "\<not> length response < 256"
    by (simp_all add: ends_loop_def)
  have n: "nth_reply dev ?next (state conn') j = nth_reply dev ?next (state conn) (Suc j)" for j
    using s by simp
  have a: "state_after dev ?next (state conn') j = state_after dev ?next (state conn) (Suc j)" for j
    using s by simp
  have ch: "chunks dev ?next (state conn) (Suc (Suc k)) =
      response @ chunks dev ?next (state conn') (Suc k)"
    using r s by (subst chunks_Suc) simp
  from Suc.prems have "ends_loop (nth_reply dev ?next (state conn') k)"
    and "\<forall>j<k. \<not> ends_loop (nth_reply dev ?next (state conn') j)"
    unfolding n by auto
  from Suc.IH [OF this, of "full_data @ response"] go
  have "read_chained_loop dev rcd full_data conn =
     Some (if reply_success (nth_reply dev ?next (state conn) (Suc k))
           then Break (full_data @ chunks dev ?next (state conn) (Suc (Suc k)))
           else Return (full_data @ chunks dev ?next (state conn) (Suc (Suc k)))
                  (fst (snd (nth_reply dev ?next (state conn) (Suc k))))
                  (snd (snd (nth_reply dev ?next (state conn) (Suc k)))),
           conn'\<lparr>state := state_after dev ?next (state conn) (Suc (Suc k)),
                sent := sent conn' @ replicate (Suc k) ?next\<rparr>)"
    unfolding read_chained_loop_step [OF t] n a ch by simp
  also have "conn'\<lparr>state := state_after dev ?next (state conn) (Suc (Suc k)),
                sent := sent conn' @ replicate (Suc k) ?next\<rparr> =
     conn\<lparr>state := state_after dev ?next (state conn) (Suc (Suc k)),
                sent := sent conn @ replicate (Suc (Suc k)) ?next\<rparr>"
    unfolding c by (simp add: replicate_app_Cons_same)
  finally show ?case .
qed

text \<open>
  Claim C3, as the code has it. Let the reply with index \<open>k\<close> (from 0) be the first reply
  to the command that reads a chunk that ends the loop. Then \<open>k + 1\<close> such commands are
  sent, and the data returned are the responses to them, one after the other. When that
  reply has the status 0x9000 (the loop ended with the \<open>break\<close> after a response shorter
  than 256 bytes, possibly an empty one), exactly one command that ends the chained mode
  is sent after them, its response is dropped and its status is the status returned. When
  that reply has another status (the loop ended because of the status), the function
  returns at once with the data and that status, and no command that ends the chained
  mode is sent.
\<close>

theorem read_chained_data_result:
  assumes "ends_loop (nth_reply dev (GET_DATA_NEXT @ rcd @ [0x00]) (state conn) k)"
    and "\<forall>j<k. \<not> ends_loop (nth_reply dev (GET_DATA_NEXT @ rcd @ [0x00]) (state conn) j)"
  shows "read_chained_data dev rcd conn =
     Some (if reply_success (nth_reply dev (GET_DATA_NEXT @ rcd @ [0x00]) (state conn) k)
       then
         ((concat (map (\<lambda>j. fst (nth_reply dev (GET_DATA_NEXT @ rcd @ [0x00]) (state conn) j))
                     [0..<Suc k]),
           snd (fst (dev (GET_DATA_LAST @ rcd @ [0x00])
                  (state_after dev (GET_DATA_NEXT @ rcd @ [0x00]) (state conn) (Suc k))))),
          conn\<lparr>state := snd (dev (GET_DATA_LAST @ rcd @ [0x00])
                   (state_after dev (GET_DATA_NEXT @ rcd @ [0x00]) (state conn) (Suc k))),
               sent := sent conn @ replicate (Suc k) (GET_DATA_NEXT @ rcd @ [0x00])
                         @ [GET_DATA_LAST @ rcd @ [0x00]]\<rparr>)
       else
         ((concat (map (\<lambda>j. fst (nth_reply dev (GET_DATA_NEXT @ rcd @ [0x00]) (state conn) j))
                     [0..<Suc k]),
           snd (nth_reply dev (GET_DATA_NEXT @ rcd @ [0x00]) (state conn) k)),
          conn\<lparr>state := state_after dev (GET_DATA_NEXT @ rcd @ [0x00]) (state conn) (Suc k),
               sent := sent conn @ replicate (Suc k) (GET_DATA_NEXT @ rcd @ [0x00])\<rparr>))
     \<and> GET_DATA_LAST @ rcd @ [0x00] \<noteq> GET_DATA_NEXT @ rcd @ [0x00]"
proof -
  let ?next = "GET_DATA_NEXT @ rcd @ [0x00]"
  let ?last = "GET_DATA_LAST @ rcd @ [0x00]"
  let ?c = "conn\<lparr>state := state_after dev ?next (state conn) (Suc k),
                sent := sent conn @ replicate (Suc k) ?next\<rparr>"
  note lp = read_chained_loop_result [OF assms, of "[]"]
  have d: "chunks dev ?next (state conn) (Suc k) =
      concat (map (\<lambda>j. fst (nth_reply dev ?next (state conn) j)) [0..<Suc k])"
    by (simp only: chunks_def)
  show ?thesis
  proof (cases "reply_success (nth_reply dev ?next (state conn) k)")
    case False
    have "read_chained_data dev rcd conn =
        Some ((chunks dev ?next (state conn) (Suc k), snd (nth_reply dev ?next (state conn) k)), ?c)"
      using lp False by (simp add: read_chained_data_def)
    with False next_last_differ [of rcd] show ?thesis
      unfolding d by (simp del: upt_Suc)
  next
    case True
    obtain r c' where t: "transmit dev ?last ?c = (r, c')"
      by (cases "transmit dev ?last ?c")
    obtain response s1 s2 where r: "r = (response, s1, s2)" by (cases r)
    from t r have r': "fst (dev ?last (state_after dev ?next (state conn) (Suc k))) = (response, s1, s2)"
      and c': "c' = conn\<lparr>state := snd (dev ?last (state_after dev ?next (state conn) (Suc k))),
                     sent := sent conn @ replicate (Suc k) ?next @ [?last]\<rparr>"
      by (simp_all add: transmit_eq del: state_after.simps replicate.simps)
    from lp True t r
    have "read_chained_data dev rcd conn =
        Some ((chunks dev ?next (state conn) (Suc k), s1, s2), c')"
      by (simp add: read_chained_data_def del: state_after.simps replicate.simps)
    with True r' c' next_last_differ [of rcd] show ?thesis
      unfolding d by (simp del: upt_Suc state_after.simps replicate.simps)
  qed
qed


theorem read_chained_data_result_witness:
  "ends_loop (nth_reply numbering_card (GET_DATA_NEXT @ [0xE1, 1] @ [0x00]) 0 2)
   \<and> \<not> ends_loop (nth_reply numbering_card (GET_DATA_NEXT @ [0xE1, 1] @ [0x00]) 0 0)
   \<and> \<not> ends_loop (nth_reply numbering_card (GET_DATA_NEXT @ [0xE1, 1] @ [0x00]) 0 1)
   \<and> read_chained_data numbering_card [0xE1, 1] \<lparr>state = 0, sent = []\<rparr> =
       Some ((replicate 256 0 @ replicate 256 1 @ [9, 9, 9], 0x62, 0x83),
             \<lparr>state = 4,
              sent = [GET_DATA_NEXT @ [0xE1, 1] @ [0x00], GET_DATA_NEXT @ [0xE1, 1] @ [0x00],
                      GET_DATA_NEXT @ [0xE1, 1] @ [0x00], GET_DATA_LAST @ [0xE1, 1] @ [0x00]]\<rparr>)"
proof -
  let ?next = "GET_DATA_NEXT @ [0xE1, 1] @ [0x00]"
  let ?last = "GET_DATA_LAST @ [0xE1, 1] @ [0x00]"
  have nl: "?next \<noteq> ?last"
    by (simp add: GET_DATA_NEXT_def GET_DATA_LAST_def)
  have r0: "nth_reply numbering_card ?next 0 0 = (replicate 256 0, 0x90, 0x00)"
    and r1: "nth_reply numbering_card ?next 0 1 = (replicate 256 1, 0x90, 0x00)"
    and r2: "nth_reply numbering_card ?next 0 2 = ([9, 9, 9], 0x90, 0x00)"
    using nl by (simp_all add: numbering_card_def eval_nat_numeral)
  have sa: "state_after numbering_card ?next 0 (Suc 2) = 3"
    by (simp add: numbering_card_def eval_nat_numeral)
  have la: "numbering_card ?last 3 = (([5], 0x62, 0x83), 4)"
    by (simp add: numbering_card_def)
  have e: "ends_loop (nth_reply numbering_card ?next 0 2)"
    unfolding r2 by (simp add: ends_loop_def)
  have n0: "\<not> ends_loop (nth_reply numbering_card ?next 0 0)"
    and n1: "\<not> ends_loop (nth_reply numbering_card ?next 0 1)"
    unfolding r0 r1 by (simp_all add: ends_loop_def success_def)
  have n: "\<forall>j<2. \<not> ends_loop (nth_reply numbering_card ?next 0 j)"
  proof (intro allI impI)
    fix j :: nat
    assume "j < 2"
    then consider "j = 0" | "j = 1" by linarith
    then show "\<not> ends_loop (nth_reply numbering_card ?next 0 j)"
      using n0 n1 by cases simp_all
  qed
  have s: "reply_success (nth_reply numbering_card ?next 0 2)"
    unfolding r2 by (simp add: reply_success_def success_def)
  have u: "[0..<Suc 2] = [0, 1, 2]"
    by (simp add: eval_nat_numeral)
  have d: "concat (map (\<lambda>j. fst (nth_reply numbering_card ?next 0 j)) [0..<Suc 2]) =
      replicate 256 0 @ replicate 256 1 @ [9, 9, 9]"
    unfolding u by (simp only: list.map concat.simps r0 r1 r2 fst_conv append_Nil2)
  have st: "state \<lparr>state = 0 :: nat, sent = []\<rparr> = 0"
    by simp
  note th = read_chained_data_result [of numbering_card "[0xE1, 1]" "\<lparr>state = 0, sent = []\<rparr>" 2,
      unfolded st, OF e n, unfolded if_P [OF s] d sa la]
  from th
  have "read_chained_data numbering_card [0xE1, 1] \<lparr>state = 0, sent = []\<rparr> =
       Some ((replicate 256 0 @ replicate 256 1 @ [9, 9, 9], 0x62, 0x83),
             \<lparr>state = 4, sent = [?next, ?next, ?next, ?last]\<rparr>)"
    by (simp add: eval_nat_numeral)
  with e n0 n1 show ?thesis by blast
qed

text \<open>
  Three full chunks and then one of 100 bytes: four commands that read a chunk, one that
  ends the chained mode, 868 bytes.
\<close>

lemma chained_read_example:
  "\<exists>d c. read_chained_data counting_card [0xE1, 1] \<lparr>state = 0, sent = []\<rparr> = Some ((d, 0x90, 0x00), c)
     \<and> length d = 868
     \<and> sent c = [GET_DATA_NEXT @ [0xE1, 1] @ [0x00], GET_DATA_NEXT @ [0xE1, 1] @ [0x00],
                  GET_DATA_NEXT @ [0xE1, 1] @ [0x00], GET_DATA_NEXT @ [0xE1, 1] @ [0x00],
                  GET_DATA_LAST @ [0xE1, 1] @ [0x00]]"
  by (simp add: read_chained_data_def read_chained_loop.simps transmit_def counting_card_def
      success_def)

text \<open>
  The claim C3 as stated fails: the card below answers the first command with the status
  0x6A82. The function returns that status after the one command that reads a chunk; the
  command that ends the chained mode is not sent.
\<close>

theorem terminate_request_counterexample:
  "read_chained_data failing_card [0xE1, 1] \<lparr>state = (), sent = []\<rparr> =
     Some (([], 0x6A, 0x82), \<lparr>state = (), sent = [[0x10, 0xCA, 0x01, 0xF0, 0x02, 0xE1, 1, 0]]\<rparr>)
   \<and> \<not> success 0x6A 0x82
   \<and> GET_DATA_LAST @ [0xE1, 1] @ [0x00] \<notin> set [[0x10, 0xCA, 0x01, 0xF0, 0x02, 0xE1, 1, 0]]"
  by (simp add: read_chained_data_def read_chained_loop.simps transmit_def failing_card_def
      success_def GET_DATA_NEXT_def GET_DATA_LAST_def)

text \<open>
  Claim C8, as the code has it. The loop has no bound of its own: \<open>read_chained_data\<close>
  returns exactly when one of the replies of the card to the repeated command that reads
  a chunk has a status other than 0x9000 or is shorter than 256 bytes.
\<close>

theorem read_chained_data_returns_iff:
  "(\<exists>r. read_chained_data dev rcd conn = Some r) \<longleftrightarrow>
   (\<exists>k. ends_loop (nth_reply dev (GET_DATA_NEXT @ rcd @ [0x00]) (state conn) k))"
proof
  assume "\<exists>r. read_chained_data dev rcd conn = Some r"
  then obtain y where "read_chained_loop dev rcd [] conn = Some y"
    by (auto simp: read_chained_data_def split: option.splits)
  from read_chained_loop_returns [OF this]
  show "\<exists>k. ends_loop (nth_reply dev (GET_DATA_NEXT @ rcd @ [0x00]) (state conn) k)"
    by blast
next
  assume "\<exists>k. ends_loop (nth_reply dev (GET_DATA_NEXT @ rcd @ [0x00]) (state conn) k)"
  then obtain k where "ends_loop (nth_reply dev (GET_DATA_NEXT @ rcd @ [0x00]) (state conn) k)"
    by blast
  from read_chained_loop_ends [OF this, of "[]"] obtain y where
    "read_chained_loop dev rcd [] conn = Some y" by blast
  then show "\<exists>r. read_chained_data dev rcd conn = Some r"
    by (auto simp: read_chained_data_def split: prod.splits loop_exit.splits)
qed

theorem read_chained_data_returns_iff_witness:
  "ends_loop (nth_reply short_card (GET_DATA_NEXT @ [0xE1, 1] @ [0x00]) () 0)
   \<and> (\<exists>r. read_chained_data short_card [0xE1, 1] \<lparr>state = (), sent = []\<rparr> = Some r)"
proof -
  have e: "ends_loop (nth_reply short_card (GET_DATA_NEXT @ [0xE1, 1] @ [0x00]) () 0)"
    by (simp add: short_card_def ends_loop_def success_def)
  then have "\<exists>k. ends_loop (nth_reply short_card (GET_DATA_NEXT @ [0xE1, 1] @ [0x00])
      (state \<lparr>state = (), sent = []\<rparr>) k)"
    by (intro exI [of _ 0]) simp
  with read_chained_data_returns_iff [of short_card "[0xE1, 1]" "\<lparr>state = (), sent = []\<rparr>"] e
  show ?thesis
    by blast
qed

lemma full_card_never_ends: "\<not> ends_loop (nth_reply full_card apdu s k)"
  by (induction k) (simp_all add: full_card_def ends_loop_def success_def)

text \<open>
  The claim C8 as stated fails: with the card that always answers with a full chunk of
  256 bytes and the status 0x9000 the loop never ends, and the function does not return.
\<close>

theorem read_chained_data_unbounded_counterexample:
  "read_chained_data full_card [0xE1, 1] \<lparr>state = (), sent = []\<rparr> = None"
proof -
  have "read_chained_loop full_card [0xE1, 1] [] \<lparr>state = (), sent = []\<rparr> = None"
  proof (cases "read_chained_loop full_card [0xE1, 1] [] \<lparr>state = (), sent = []\<rparr>")
    case None
    then show ?thesis .
  next
    case (Some y)
    from read_chained_loop_returns [OF Some] full_card_never_ends show ?thesis by blast
  qed
  then show ?thesis by (simp add: read_chained_data_def)
qed

section \<open>Properties of the heuristic for TLV-EFS\<close>

text \<open>
  Claim C7. The claim holds when one of the two children on the path is absent: the
  AttributeError is caught and the block is rendered. The code misses the third step.
  When both children are there and the leaf with tag 0x85 is absent, \<open>get_value\<close> returns
  \<open>None\<close> and \<open>None[0]\<close> raises TypeError; when the leaf is there and empty, indexing the
  empty bytes raises IndexError. Neither is caught by \<open>except AttributeError\<close>, so the
  exception leaves \<open>pretty_print_block\<close> and nothing is rendered.
\<close>

theorem heuristic_missing_leaf_raises:
  "pretty_print_block [0xE8, 6, 0xEA, 4, 0x84, 2, 1, 2] 0x90 0x00 = ([], Some TypeError)
   \<and> tlv_efs_test (BerTlv (Bytes [0xE8, 6, 0xEA, 4, 0x84, 2, 1, 2])) = Inl TypeError
   \<and> pretty_print_block [0xE8, 4, 0xEA, 2, 0x85, 0] 0x90 0x00 = ([], Some IndexError)"
  by code_simp

text \<open>With the first or the second child absent the block is rendered.\<close>

lemma heuristic_missing_child_renders:
  "pretty_print_block [0xE8, 4, 0x84, 2, 1, 2] 0x90 0x00 =
     ([''e8 (BERECHTIGUNG):'', ''  84 (BERECHTIGUNG_DYNAMISCH): 01 02'', ''    berStatus: 1'',
       ''    berSynchronNummer: 2'', []], None)
   \<and> pretty_print_block [0x84, 2, 1, 2] 0x90 0x00 =
     ([''84 (BERECHTIGUNG_DYNAMISCH): 01 02'', ''  berStatus: 1'',
       ''  berSynchronNummer: 2'', []], None)"
  by code_simp

end
